theory Spec2Isabelle
  imports Main "HOL-Library.Char_ord" "HOL-Library.List_Lexorder" "HOL-Library.Multiset"
begin

section \<open>Strings and the regular expressions of the parser\<close>

text \<open>
  A Go string is a sequence of bytes; it is modelled as a \<^typ>\<open>string\<close>, one
  \<^typ>\<open>char\<close> per byte. The regular expressions of \<^verbatim>\<open>migration.go\<close> are
  translated by hand into matchers on such strings, one definition per expression.
\<close>

definition nl :: char where
  "nl = CHR 0x0A"

text \<open>The class \<^verbatim>\<open>\s\<close> of Go's regexp package: tab, newline, form feed, carriage return, space.\<close>

definition is_space :: "char \<Rightarrow> bool" where
  "is_space c = (c = CHR 0x09 \<or> c = CHR 0x0A \<or> c = CHR 0x0C \<or> c = CHR 0x0D \<or> c = CHR 0x20)"

text \<open>The class \<^verbatim>\<open>\d\<close>: the ASCII digits.\<close>

definition is_digit :: "char \<Rightarrow> bool" where
  "is_digit c = (CHR ''0'' \<le> c \<and> c \<le> CHR ''9'')"

text \<open>
  \<open>strip_prefix p s\<close> is the rest of \<open>s\<close> after the literal \<open>p\<close>, when \<open>s\<close> starts with it.
  The lists are strings, or lists of runes where an expression is matched rune by rune.
\<close>

fun strip_prefix :: "'a list \<Rightarrow> 'a list \<Rightarrow> 'a list option" where
  "strip_prefix [] s = Some s"
| "strip_prefix (p # ps) [] = None"
| "strip_prefix (p # ps) (c # cs) = (if p = c then strip_prefix ps cs else None)"

text \<open>\<open>strip_suffix p s\<close> is the part of \<open>s\<close> before the literal \<open>p\<close>, when \<open>s\<close> ends with it.\<close>

definition strip_suffix :: "'a list \<Rightarrow> 'a list \<Rightarrow> 'a list option" where
  "strip_suffix p s = map_option rev (strip_prefix (rev p) (rev s))"

text \<open>\<^verbatim>\<open>strings.Split(s, sep)\<close> for a separator of one byte.\<close>

fun split_on :: "char \<Rightarrow> string \<Rightarrow> string list" where
  "split_on sep [] = [[]]"
| "split_on sep (c # cs) =
     (if c = sep then [] # split_on sep cs
      else (case split_on sep cs of [] \<Rightarrow> [[c]] | piece # pieces \<Rightarrow> (c # piece) # pieces))"

section \<open>Migration options\<close>

text \<open>
  \<^verbatim>\<open>type migrationOptions map[string]string\<close>. Reading a key that is absent from a Go map
  gives the zero value, the empty string.
\<close>

type_synonym migrationOptions = "string \<rightharpoonup> string"

definition go_index :: "migrationOptions \<Rightarrow> string \<Rightarrow> string" where
  "go_index m k = (case m k of None \<Rightarrow> [] | Some v \<Rightarrow> v)"

definition Transaction :: "migrationOptions \<Rightarrow> bool" where
  "Transaction m = (go_index m ''transaction'' \<noteq> ''false'')"

record Migration =
  Contents :: string
  Options :: migrationOptions

definition NewMigration :: Migration where
  "NewMigration = \<lparr>Contents = [], Options = Map.empty\<rparr>"

section \<open>The migration-file store\<close>

datatype error =
    ErrNoMigrationFiles
  | ErrInvalidURL
  | ErrNoRollback
  | ErrNoRollbackSlaves
  | ErrCantConnect string
  | ErrUnsupportedDriver string
  | ErrMigrationDirNotFound
  | ErrMigrationNotFound string
  | ErrCreateDirectory
  | ErrParseMissingUp
  | ErrParseUnexpectedStmt
  | ErrParseDuplicateBlock
  | External string
  | Panic string

text \<open>
  \<^verbatim>\<open>migrationFileRegexp = ^\d.*\.sql$\<close>, without flags: \<^verbatim>\<open>.\<close> is any byte but the newline
  and \<^verbatim>\<open>$\<close> is the end of the text. The name starts with a digit, ends with \<^verbatim>\<open>.sql\<close>, and
  the bytes between the two have no newline.
\<close>

definition migrationFileRegexp :: "string \<Rightarrow> bool" where
  "migrationFileRegexp name =
     (case name of
        [] \<Rightarrow> False
      | c # rest \<Rightarrow>
          is_digit c \<and>
          (case strip_suffix ''.sql'' rest of
             None \<Rightarrow> False
           | Some middle \<Rightarrow> nl \<notin> set middle))"

text \<open>
  A directory as \<^verbatim>\<open>os.ReadDir\<close> gives it: \<open>None\<close> when the read fails, else the entries,
  each a name and whether it is a directory.
\<close>

type_synonym dir_listing = "(string \<times> bool) list option"

text \<open>The loop of \<^verbatim>\<open>findMigrationFiles\<close>: directories and names the expression refuses are skipped.\<close>

fun matching_names :: "(string \<Rightarrow> bool) \<Rightarrow> (string \<times> bool) list \<Rightarrow> string list" where
  "matching_names re [] = []"
| "matching_names re ((name, is_dir) # files) =
     (if is_dir then matching_names re files
      else if \<not> re name then matching_names re files
      else name # matching_names re files)"

definition findMigrationFiles :: "dir_listing \<Rightarrow> (string \<Rightarrow> bool) \<Rightarrow> error + string list" where
  "findMigrationFiles dir re =
     (case dir of
        None \<Rightarrow> Inl ErrMigrationDirNotFound
      | Some files \<Rightarrow> Inr (sort (matching_names re files)))"

text \<open>
  \<^verbatim>\<open>regexp.MustCompile(`^\d+`).FindString(filename)\<close>: the match starts at the start of the
  text and \<^verbatim>\<open>\d+\<close> is greedy; without a match the result is the empty string.
\<close>

fun digits_plus :: "string \<Rightarrow> nat option" where
  "digits_plus [] = None"
| "digits_plus (c # cs) =
     (if is_digit c then
        (case digits_plus cs of None \<Rightarrow> Some 1 | Some n \<Rightarrow> Some (Suc n))
      else None)"

definition migrationVersion :: "string \<Rightarrow> string" where
  "migrationVersion filename =
     (case digits_plus filename of None \<Rightarrow> [] | Some n \<Rightarrow> take n filename)"


section \<open>The parser of migration files\<close>

subsection \<open>The directive expressions\<close>

text \<open>
  Every directive expression starts with \<^verbatim>\<open>--\s*migrate:\<close>. The star is greedy and the next
  byte it must leave is \<open>m\<close>, no white space, so the run of white space is skipped whole.
  \<open>dashes_migrate s\<close> is what follows \<^verbatim>\<open>migrate:\<close> in \<open>s\<close>.
\<close>

definition dashes_migrate :: "string \<Rightarrow> string option" where
  "dashes_migrate s =
     (case strip_prefix ''--'' s of
        None \<Rightarrow> None
      | Some r \<Rightarrow> strip_prefix ''migrate:'' (dropWhile is_space r))"

text \<open>\<^verbatim>\<open>(up|down)\<close>: the alternatives exclude each other.\<close>

definition up_or_down :: "string \<Rightarrow> string option" where
  "up_or_down s =
     (case strip_prefix ''up'' s of Some r \<Rightarrow> Some r | None \<Rightarrow> strip_prefix ''down'' s)"

text \<open>\<^verbatim>\<open>( |\n)\<close>: one space or one newline.\<close>

definition space_or_newline :: "string \<Rightarrow> bool" where
  "space_or_newline s = (case s of [] \<Rightarrow> False | c # _ \<Rightarrow> c = CHR 0x20 \<or> c = nl)"

text \<open>
  The expression compiled in \<^verbatim>\<open>parseMigrationContents\<close>,
  \<^verbatim>\<open>(?m)^--\s*migrate\:(?:up|down)(?:\:slave)?( |\n)\<close>, matched at the head of \<open>s\<close> (the
  anchor \<^verbatim>\<open>^\<close> is checked by the caller): the length of the match. The optional group is
  tried first with \<^verbatim>\<open>:slave\<close>, then without.
\<close>

definition block_start_match :: "string \<Rightarrow> nat option" where
  "block_start_match s =
     (case dashes_migrate s of
        None \<Rightarrow> None
      | Some r \<Rightarrow>
          (case up_or_down r of
             None \<Rightarrow> None
           | Some r1 \<Rightarrow>
               (case strip_prefix '':slave'' r1 of
                  Some r2 \<Rightarrow>
                    if space_or_newline r2 then Some (length s - length r2 + 1)
                    else if space_or_newline r1 then Some (length s - length r1 + 1)
                    else None
                | None \<Rightarrow>
                    if space_or_newline r1 then Some (length s - length r1 + 1) else None)))"

text \<open>
  \<^verbatim>\<open>re.FindAllIndex([]byte(contents), -1)\<close>: the matches from left to right, none
  overlapping another. \<open>bol\<close> says that the position is the start of a line (the start of the
  text or the byte after a newline), \<open>skip\<close> counts the bytes left of the match in progress,
  \<open>i\<close> is the position. Each match is given as its start and its end.
\<close>

fun find_block_starts :: "bool \<Rightarrow> nat \<Rightarrow> nat \<Rightarrow> string \<Rightarrow> (nat \<times> nat) list" where
  "find_block_starts bol skip i [] = []"
| "find_block_starts bol skip i (c # cs) =
     (if skip = 0 \<and> bol then
        (case block_start_match (c # cs) of
           Some n \<Rightarrow> (i, i + n) # find_block_starts (c = nl) (n - 1) (Suc i) cs
         | None \<Rightarrow> find_block_starts (c = nl) 0 (Suc i) cs)
      else find_block_starts (c = nl) (skip - 1) (Suc i) cs)"

definition reFinds :: "string \<Rightarrow> (nat \<times> nat) list" where
  "reFinds contents = find_block_starts True 0 0 contents"

text \<open>
  \<^verbatim>\<open>$\<close> under \<^verbatim>\<open>(?m)\<close>: the end of the text or the position before a newline.
\<close>

definition eol :: "string \<Rightarrow> bool" where
  "eol s = (case s of [] \<Rightarrow> True | c # _ \<Rightarrow> c = nl)"

text \<open>\<^verbatim>\<open>\s*$\<close>: the line may end here, or after one more byte of white space.\<close>

fun spaces_eol :: "string \<Rightarrow> bool" where
  "spaces_eol [] = True"
| "spaces_eol (c # cs) = (c = nl \<or> (is_space c \<and> spaces_eol cs))"

text \<open>
  \<^verbatim>\<open>\s+\S+\<close>: white space, then a byte that is none. Both runs are greedy, and giving
  back a byte of the first leaves white space where \<^verbatim>\<open>\S\<close> is wanted.
\<close>

definition spaces_word :: "string \<Rightarrow> bool" where
  "spaces_word s =
     (case s of [] \<Rightarrow> False | c # cs \<Rightarrow> is_space c \<and> dropWhile is_space cs \<noteq> [])"

text \<open>
  \<^verbatim>\<open>\s+\S+$\<close>: as before, and the word is followed by the end of the line. A shorter word
  is followed by a byte of the word, which is no newline.
\<close>

definition spaces_word_eol :: "string \<Rightarrow> bool" where
  "spaces_word_eol s =
     (case s of
        [] \<Rightarrow> False
      | c # cs \<Rightarrow>
          is_space c \<and> dropWhile is_space cs \<noteq> [] \<and>
          eol (dropWhile (\<lambda>x. \<not> is_space x) (dropWhile is_space cs)))"

text \<open>
  The four expressions of the block kinds, matched at the head of \<open>s\<close>:
  \<^verbatim>\<open>^--\s*migrate:up(\s*$|\s+\S+)\<close>, \<^verbatim>\<open>^--\s*migrate:down(\s*$|\s+\S+)$\<close>,
  \<^verbatim>\<open>^--\s*migrate:up:slave(\s*$|\s+\S+)\<close> and \<^verbatim>\<open>^--\s*migrate:down:slave(\s*$|\s+\S+)$\<close>.
\<close>

definition directive_at :: "string \<Rightarrow> bool \<Rightarrow> string \<Rightarrow> bool" where
  "directive_at kind anchored s =
     (case dashes_migrate s of
        None \<Rightarrow> False
      | Some r \<Rightarrow>
          (case strip_prefix kind r of
             None \<Rightarrow> False
           | Some t \<Rightarrow>
               spaces_eol t \<or> (if anchored then spaces_word_eol t else spaces_word t)))"

text \<open>
  \<^verbatim>\<open>re.Find([]byte(s)) != nil\<close> for an expression that starts with \<^verbatim>\<open>(?m)^\<close>: some start of a
  line of \<open>s\<close> has a match.
\<close>

fun found_at_line_start :: "(string \<Rightarrow> bool) \<Rightarrow> bool \<Rightarrow> string \<Rightarrow> bool" where
  "found_at_line_start m bol [] = (bol \<and> m [])"
| "found_at_line_start m bol (c # cs) =
     ((bol \<and> m (c # cs)) \<or> found_at_line_start m (c = nl) cs)"

definition upRegExp :: "string \<Rightarrow> bool" where
  "upRegExp s = found_at_line_start (directive_at ''up'' False) True s"

definition downRegExp :: "string \<Rightarrow> bool" where
  "downRegExp s = found_at_line_start (directive_at ''down'' True) True s"

definition upSlaveRegExp :: "string \<Rightarrow> bool" where
  "upSlaveRegExp s = found_at_line_start (directive_at ''up:slave'' False) True s"

definition downSlaveRegExp :: "string \<Rightarrow> bool" where
  "downSlaveRegExp s = found_at_line_start (directive_at ''down:slave'' True) True s"

text \<open>\<^verbatim>\<open>emptyLineRegExp = ^\s*$\<close> and \<^verbatim>\<open>commentLineRegExp = ^\s*--\<close>, both without flags.\<close>

definition isEmptyLine :: "string \<Rightarrow> bool" where
  "isEmptyLine s = list_all is_space s"

definition isCommentLine :: "string \<Rightarrow> bool" where
  "isCommentLine s = (strip_prefix ''--'' (dropWhile is_space s) \<noteq> None)"

subsection \<open>Options of a block\<close>

text \<open>
  \<^verbatim>\<open>blockDirectiveRegExp.ReplaceAllString(contents, "")\<close> with
  \<^verbatim>\<open>^--\s*migrate:(up|down)(:slave)?\<close>: without the flag \<^verbatim>\<open>m\<close> the only match is at the
  start of the text.
\<close>

definition strip_block_directive :: "string \<Rightarrow> string" where
  "strip_block_directive s =
     (case dashes_migrate s of
        None \<Rightarrow> s
      | Some r \<Rightarrow>
          (case up_or_down r of
             None \<Rightarrow> s
           | Some r1 \<Rightarrow> (case strip_prefix '':slave'' r1 of Some r2 \<Rightarrow> r2 | None \<Rightarrow> r1)))"

text \<open>
  \<^verbatim>\<open>strings.TrimSpace\<close> removes the leading and trailing white space of Unicode. These are
  the UTF-8 encodings of the code points \<^verbatim>\<open>unicode.IsSpace\<close> accepts: U+0009 to U+000D,
  U+0020, U+0085, U+00A0, U+1680, U+2000 to U+200A, U+2028, U+2029, U+202F, U+205F, U+3000.
\<close>

definition unicode_spaces :: "string list" where
  "unicode_spaces =
     [[CHR 0x09], [CHR 0x0A], [CHR 0x0B], [CHR 0x0C], [CHR 0x0D], [CHR 0x20],
      [CHR 0xC2, CHR 0x85], [CHR 0xC2, CHR 0xA0], [CHR 0xE1, CHR 0x9A, CHR 0x80],
      [CHR 0xE2, CHR 0x80, CHR 0x80], [CHR 0xE2, CHR 0x80, CHR 0x81],
      [CHR 0xE2, CHR 0x80, CHR 0x82], [CHR 0xE2, CHR 0x80, CHR 0x83],
      [CHR 0xE2, CHR 0x80, CHR 0x84], [CHR 0xE2, CHR 0x80, CHR 0x85],
      [CHR 0xE2, CHR 0x80, CHR 0x86], [CHR 0xE2, CHR 0x80, CHR 0x87],
      [CHR 0xE2, CHR 0x80, CHR 0x88], [CHR 0xE2, CHR 0x80, CHR 0x89],
      [CHR 0xE2, CHR 0x80, CHR 0x8A], [CHR 0xE2, CHR 0x80, CHR 0xA8],
      [CHR 0xE2, CHR 0x80, CHR 0xA9], [CHR 0xE2, CHR 0x80, CHR 0xAF],
      [CHR 0xE2, CHR 0x81, CHR 0x9F], [CHR 0xE3, CHR 0x80, CHR 0x80]]"

text \<open>The number of bytes of the encoding, among \<open>encs\<close>, that \<open>s\<close> starts with; 0 for none.\<close>

definition space_width :: "string list \<Rightarrow> string \<Rightarrow> nat" where
  "space_width encs s =
     (case filter (\<lambda>p. strip_prefix p s \<noteq> None) encs of [] \<Rightarrow> 0 | p # _ \<Rightarrow> length p)"

fun trim_left :: "string list \<Rightarrow> nat \<Rightarrow> string \<Rightarrow> string" where
  "trim_left encs skip [] = []"
| "trim_left encs skip (c # cs) =
     (if skip > 0 then trim_left encs (skip - 1) cs
      else (case space_width encs (c # cs) of
              0 \<Rightarrow> c # cs
            | Suc n \<Rightarrow> trim_left encs n cs))"

definition TrimSpace :: "string \<Rightarrow> string" where
  "TrimSpace s =
     rev (trim_left (map rev unicode_spaces) 0 (rev (trim_left unicode_spaces 0 s)))"

text \<open>
  \<^verbatim>\<open>whitespaceRegExp.Split(contents, -1)\<close> with \<^verbatim>\<open>\s+\<close>: the pieces between the runs of
  white space; a run at the start or at the end of the text gives an empty piece there.
  \<open>in_run\<close> says that the byte before belongs to a run.
\<close>

fun split_spaces :: "bool \<Rightarrow> string \<Rightarrow> string list" where
  "split_spaces in_run [] = [[]]"
| "split_spaces in_run (c # cs) =
     (if is_space c then
        (if in_run then split_spaces True cs else [] # split_spaces True cs)
      else (case split_spaces False cs of
              [] \<Rightarrow> [[c]]
            | piece # pieces \<Rightarrow> (c # piece) # pieces))"

text \<open>
  The loop of \<^verbatim>\<open>parseMigrationOptions\<close>: \<^verbatim>\<open>optionSeparatorRegExp.Split(stringPair, -1)\<close>
  splits at every colon, and a pair of exactly two pieces is stored.
\<close>

definition store_option :: "migrationOptions \<Rightarrow> string \<Rightarrow> migrationOptions" where
  "store_option options stringPair =
     (let pair = split_on (CHR '':'') stringPair
      in if length pair = 2 then options(pair ! 0 \<mapsto> pair ! 1) else options)"

definition parseMigrationOptions :: "string \<Rightarrow> migrationOptions" where
  "parseMigrationOptions contents =
     (let contents1 = strip_block_directive contents;
          contents2 = TrimSpace contents1
      in if contents2 = [] then Map.empty
         else foldl store_option Map.empty (split_spaces False contents2))"

subsection \<open>Blocks\<close>

text \<open>
  \<^verbatim>\<open>s[b:e]\<close> panics unless \<open>0 \<le> b \<le> e \<le> len(s)\<close>; \<open>substring\<close> returns the empty
  string when a bound is \<open>-1\<close>.
\<close>

definition go_slice :: "string \<Rightarrow> int \<Rightarrow> int \<Rightarrow> error + string" where
  "go_slice s b e =
     (if 0 \<le> b \<and> b \<le> e \<and> e \<le> int (length s)
      then Inr (take (nat (e - b)) (drop (nat b) s))
      else Inl (Panic ''slice bounds out of range''))"

definition substring :: "string \<Rightarrow> int \<Rightarrow> int \<Rightarrow> error + string" where
  "substring s b e = (if b = - 1 \<or> e = - 1 then Inr [] else go_slice s b e)"

text \<open>
  The first loop of \<^verbatim>\<open>parseMigrationContents\<close>. A block is a pair of its start and its
  end; a new block ends at the length of the contents, and it moves the end of the block
  before it to its own start minus one. In the source \<open>idx\<close> is the number of blocks so far.
\<close>

definition append_block :: "nat \<Rightarrow> (int \<times> int) list \<Rightarrow> nat \<times> nat \<Rightarrow> (int \<times> int) list" where
  "append_block len blocks reFind =
     (let thisBlock = (int (fst reFind), int len);
          idx = length blocks;
          blocks1 = (if idx > 0
                     then blocks[idx - 1 := (fst (blocks ! (idx - 1)), int (fst reFind) - 1)]
                     else blocks)
      in blocks1 @ [thisBlock])"

definition find_blocks :: "string \<Rightarrow> (int \<times> int) list" where
  "find_blocks contents = foldl (append_block (length contents)) [] (reFinds contents)"

definition firstBlockCharacter :: "string \<Rightarrow> int" where
  "firstBlockCharacter contents =
     foldl (\<lambda>first reFind. if first < 0 then int (fst reFind) else first) (- 1) (reFinds contents)"

text \<open>
  One of the four tests of the second loop: a block that the expression finds fills the
  slot of its kind, and a slot that is filled already is an error. The source returns the
  blocks read so far beside the error; its callers drop them.
\<close>

definition fill_slot :: "(string \<Rightarrow> bool) \<Rightarrow> string \<Rightarrow> Migration \<Rightarrow> error + Migration" where
  "fill_slot re s m =
     (if re s then
        (if Contents m \<noteq> [] then Inl ErrParseDuplicateBlock
         else Inr \<lparr>Contents = s, Options = parseMigrationOptions s\<rparr>)
      else Inr m)"

type_synonym parsed = "Migration \<times> Migration \<times> Migration \<times> Migration"

definition classify_block :: "string \<Rightarrow> parsed \<Rightarrow> error + parsed" where
  "classify_block s ms =
     (case ms of (up, down, upSlave, downSlave) \<Rightarrow>
        (case fill_slot upRegExp s up of Inl e \<Rightarrow> Inl e | Inr up1 \<Rightarrow>
        (case fill_slot downRegExp s down of Inl e \<Rightarrow> Inl e | Inr down1 \<Rightarrow>
        (case fill_slot upSlaveRegExp s upSlave of Inl e \<Rightarrow> Inl e | Inr upSlave1 \<Rightarrow>
        (case fill_slot downSlaveRegExp s downSlave of Inl e \<Rightarrow> Inl e | Inr downSlave1 \<Rightarrow>
           Inr (up1, down1, upSlave1, downSlave1))))))"

fun classify_blocks :: "string \<Rightarrow> (int \<times> int) list \<Rightarrow> parsed \<Rightarrow> error + parsed" where
  "classify_blocks contents [] ms = Inr ms"
| "classify_blocks contents (b # bs) ms =
     (case substring contents (fst b) (snd b) of
        Inl e \<Rightarrow> Inl e
      | Inr s \<Rightarrow>
          (case classify_block s ms of
             Inl e \<Rightarrow> Inl e
           | Inr ms1 \<Rightarrow> classify_blocks contents bs ms1))"

fun lines_have_statement :: "string list \<Rightarrow> bool" where
  "lines_have_statement [] = False"
| "lines_have_statement (line # lines) =
     (if isEmptyLine line \<or> isCommentLine line then lines_have_statement lines else True)"

definition statementsPrecedeMigrateBlocks :: "string \<Rightarrow> int \<Rightarrow> error + bool" where
  "statementsPrecedeMigrateBlocks contents firstBlockStart =
     (case go_slice contents 0 firstBlockStart of
        Inl e \<Rightarrow> Inl e
      | Inr head_text \<Rightarrow> Inr (lines_have_statement (split_on nl head_text)))"

definition parseMigrationContents :: "string \<Rightarrow> error + parsed" where
  "parseMigrationContents contents =
     (let blocks = find_blocks contents
      in if length blocks = 0 then Inl ErrParseMissingUp
         else
           (case classify_blocks contents blocks
                   (NewMigration, NewMigration, NewMigration, NewMigration) of
              Inl e \<Rightarrow> Inl e
            | Inr (up, down, upSlave, downSlave) \<Rightarrow>
                if Contents up = [] then Inl ErrParseMissingUp
                else
                  (case statementsPrecedeMigrateBlocks contents (firstBlockCharacter contents) of
                     Inl e \<Rightarrow> Inl e
                   | Inr True \<Rightarrow> Inl ErrParseUnexpectedStmt
                   | Inr False \<Rightarrow> Inr (up, down, upSlave, downSlave))))"

text \<open>
  \<^verbatim>\<open>parseMigration\<close> reads the file first. A file system is what \<^verbatim>\<open>os.ReadFile\<close> gives for
  a path: the message of the error, or the contents.
\<close>

definition parseMigration :: "(string \<Rightarrow> string + string) \<Rightarrow> string \<Rightarrow> error + parsed" where
  "parseMigration read_file path =
     (case read_file path of
        Inl msg \<Rightarrow> Inl (External msg)
      | Inr data \<Rightarrow> parseMigrationContents data)"

subsection \<open>Notions for the properties of the parser\<close>

text \<open>\<^verbatim>\<open>strings.Join(elems, sep)\<close>.\<close>

fun Join :: "string list \<Rightarrow> string \<Rightarrow> string" where
  "Join [] sep = []"
| "Join [x] sep = x"
| "Join (x # y # zs) sep = x @ sep @ Join (y # zs) sep"

text \<open>The texts of the blocks, as the second loop of the parser cuts them out of the contents.\<close>

definition block_texts :: "string \<Rightarrow> (error + string) list" where
  "block_texts contents = map (\<lambda>b. substring contents (fst b) (snd b)) (find_blocks contents)"

text \<open>The contents of the four blocks of a result of the parser.\<close>

definition contents_of :: "error + parsed \<Rightarrow> error + string \<times> string \<times> string \<times> string" where
  "contents_of r =
     (case r of
        Inl e \<Rightarrow> Inl e
      | Inr (up, down, upSlave, downSlave) \<Rightarrow>
          Inr (Contents up, Contents down, Contents upSlave, Contents downSlave))"

text \<open>
  The text before the first directive and the texts of the blocks, one after the other:
  what the prefix and the ranges of the blocks cover of the contents.
\<close>

definition covered_text :: "string \<Rightarrow> string" where
  "covered_text contents =
     take (nat (firstBlockCharacter contents)) contents @
     concat (map (\<lambda>t. case t of Inl e \<Rightarrow> [] | Inr s \<Rightarrow> s) (block_texts contents))"

text \<open>Matches that follow each other from \<open>lo\<close> on, none empty, none overlapping the next.\<close>

fun chained :: "nat \<Rightarrow> (nat \<times> nat) list \<Rightarrow> bool" where
  "chained lo [] = True"
| "chained lo ((a, b) # xs) = (lo \<le> a \<and> a < b \<and> chained b xs)"

text \<open>
  The ranges and the texts of the blocks in closed form: a block runs from the start of its
  directive to the start of the next directive minus one, the last block to the length \<open>n\<close>.
\<close>

fun ranges :: "nat \<Rightarrow> (nat \<times> nat) list \<Rightarrow> (int \<times> int) list" where
  "ranges n [] = []"
| "ranges n [(a, b)] = [(int a, int n)]"
| "ranges n ((a, b) # (a', b') # rest) = (int a, int a' - 1) # ranges n ((a', b') # rest)"

fun pieces :: "string \<Rightarrow> (nat \<times> nat) list \<Rightarrow> string list" where
  "pieces c [] = []"
| "pieces c [(a, b)] = [drop a c]"
| "pieces c ((a, b) # (a', b') # rest) = take (a' - 1 - a) (drop a c) # pieces c ((a', b') # rest)"

text \<open>
  The four expressions that the second loop of the parser tries on the text of a block, and
  the texts of a file that give one of them a second match: a kind of block that the file
  has twice.
\<close>

definition kind_expressions :: "(string \<Rightarrow> bool) list" where
  "kind_expressions = [upRegExp, downRegExp, upSlaveRegExp, downSlaveRegExp]"

definition duplicates_kind :: "string list \<Rightarrow> bool" where
  "duplicates_kind texts = list_ex (\<lambda>re. 1 < length (filter re texts)) kind_expressions"

text \<open>The number of blocks that a slot of the result holds: none or one.\<close>

definition filled :: "Migration \<Rightarrow> nat" where
  "filled m = (if Contents m = [] then 0 else 1)"

section \<open>Databases and drivers\<close>

text \<open>
  The orchestrator reaches a database through the interface \<^verbatim>\<open>Driver\<close> and through the
  handle and the transactions of \<^verbatim>\<open>database/sql\<close> that the driver opens. The drivers are
  not part of the sources: a driver is a parameter, any function from a call and the state
  of the outside world to a reply and the next state. The flag of \<open>Exec\<close>,
  \<open>InsertMigration\<close> and \<open>DeleteMigration\<close> says whether the call goes through a transaction.
\<close>

datatype target = Primary | Replica nat

datatype call =
    Ping
  | Open
  | DatabaseExists
  | CreateDatabase
  | DropDatabase
  | DumpSchema
  | MigrationsTableExists
  | CreateMigrationsTable
  | SelectMigrations int
  | InsertMigration bool string
  | DeleteMigration bool string
  | Exec bool string
  | Begin
  | Commit
  | TxRollback
  | Close

datatype reply =
    Failed string
  | Done
  | Versions "(string \<times> bool) list"
  | Bytes string
  | Flag bool

text \<open>
  What the orchestrator does to the outside world, in the order in which it does it: the
  calls with their replies, the pauses of \<^verbatim>\<open>time.Sleep\<close>, and the two steps that write the
  schema file. Writes to the log and to the standard output are left out: they change no
  control flow.
\<close>

datatype event =
    Call target call reply
  | Sleep int
  | EnsureDir "string option"
  | WriteSchema string "string option"

type_synonym 's Driver = "call \<Rightarrow> 's \<Rightarrow> reply \<times> 's"

text \<open>A driver with the database it stands for: the primary or the replica of an index.\<close>

type_synonym 's handle = "target \<times> 's Driver"

record 's world =
  state :: 's
  trace :: "event list"
  deferred :: "(target \<times> 's Driver) list"

text \<open>The error of a reply, \<open>None\<close> for \<^verbatim>\<open>nil\<close>; the versions and the bytes of a reply.\<close>

definition err_of :: "reply \<Rightarrow> string option" where
  "err_of r = (case r of Failed msg \<Rightarrow> Some msg | _ \<Rightarrow> None)"

definition versions_of :: "reply \<Rightarrow> (string \<times> bool) list" where
  "versions_of r = (case r of Versions m \<Rightarrow> m | _ \<Rightarrow> [])"

definition bytes_of :: "reply \<Rightarrow> string" where
  "bytes_of r = (case r of Bytes b \<Rightarrow> b | _ \<Rightarrow> [])"

definition call :: "'s handle \<Rightarrow> call \<Rightarrow> 's world \<Rightarrow> reply \<times> 's world" where
  "call drv c w =
     (case snd drv c (state w) of
        (r, s) \<Rightarrow> (r, w\<lparr>state := s, trace := trace w @ [Call (fst drv) c r]\<rparr>))"

text \<open>A call of which the orchestrator reads the error only.\<close>

definition call_err :: "'s handle \<Rightarrow> call \<Rightarrow> 's world \<Rightarrow> (error + unit) \<times> 's world" where
  "call_err drv c w =
     (case call drv c w of
        (r, w1) \<Rightarrow> (case err_of r of Some msg \<Rightarrow> (Inl (External msg), w1) | None \<Rightarrow> (Inr (), w1)))"

definition selectMigrations ::
  "'s handle \<Rightarrow> int \<Rightarrow> 's world \<Rightarrow> (error + (string \<times> bool) list) \<times> 's world" where
  "selectMigrations drv limit w =
     (case call drv (SelectMigrations limit) w of
        (r, w1) \<Rightarrow>
          (case err_of r of
             Some msg \<Rightarrow> (Inl (External msg), w1)
           | None \<Rightarrow> (Inr (versions_of r), w1)))"

definition sleep :: "int \<Rightarrow> 's world \<Rightarrow> 's world" where
  "sleep d w = w\<lparr>trace := trace w @ [Sleep d]\<rparr>"

text \<open>
  \<^verbatim>\<open>defer dbutil.MustClose(sqlDB)\<close>. Modelled from the spec: \<^verbatim>\<open>dbutil.MustClose\<close> is not
  part of the sources; the spec says that every handle the orchestrator opened is released
  on every exit path. The release is the call \<open>Close\<close>, and its reply is not read. The
  handles to release are kept in the world, the last one first; \<open>run_deferred\<close> is the exit
  of the function.
\<close>

definition defer_close :: "'s handle \<Rightarrow> 's world \<Rightarrow> 's world" where
  "defer_close drv w = w\<lparr>deferred := drv # deferred w\<rparr>"

fun close_all :: "'s handle list \<Rightarrow> 's world \<Rightarrow> 's world" where
  "close_all [] w = w"
| "close_all (drv # rest) w = close_all rest (snd (call drv Close w))"

definition run_deferred :: "'s world \<Rightarrow> 's world" where
  "run_deferred w = (close_all (deferred w) w)\<lparr>deferred := []\<rparr>"

subsection \<open>The configuration and the registry of drivers\<close>

record URL =
  Scheme :: string
  Address :: string

record DriverConfig =
  cfg_DatabaseURL :: URL
  cfg_MigrationsTableName :: string

text \<open>
  The fields of \<^verbatim>\<open>DB\<close> that the modelled functions read. \<^verbatim>\<open>DatabaseURL\<close> may be \<^verbatim>\<open>nil\<close>;
  the durations are the 64-bit integers of \<^verbatim>\<open>time.Duration\<close>. A replica's URL is taken
  not to be \<^verbatim>\<open>nil\<close>.
\<close>

record DB =
  AutoDumpSchema :: bool
  DatabaseURL :: "URL option"
  SlaveDatabases :: "URL list"
  MigrationsTableName :: string
  WaitBefore :: bool
  WaitInterval :: int
  WaitTimeout :: int

text \<open>\<^verbatim>\<open>var drivers = map[string]DriverFunc{}\<close>, a parameter of the functions that read it.\<close>

type_synonym 's registry = "string \<Rightarrow> (DriverConfig \<Rightarrow> 's Driver) option"

definition GetDriver :: "'s registry \<Rightarrow> DB \<Rightarrow> error + 's handle" where
  "GetDriver drivers db =
     (case DatabaseURL db of
        None \<Rightarrow> Inl ErrInvalidURL
      | Some u \<Rightarrow>
          if Scheme u = [] then Inl ErrInvalidURL
          else
            (case drivers (Scheme u) of
               None \<Rightarrow> Inl (ErrUnsupportedDriver (Scheme u))
             | Some driverFunc \<Rightarrow>
                 Inr (Primary, driverFunc \<lparr>cfg_DatabaseURL = u,
                        cfg_MigrationsTableName = MigrationsTableName db\<rparr>)))"

fun slave_drivers :: "'s registry \<Rightarrow> DB \<Rightarrow> nat \<Rightarrow> URL list \<Rightarrow> error + 's handle list" where
  "slave_drivers drivers db idx [] = Inr []"
| "slave_drivers drivers db idx (slave # slaves) =
     (case drivers (Scheme slave) of
        None \<Rightarrow> Inl (ErrUnsupportedDriver (Scheme slave))
      | Some driverFunc \<Rightarrow>
          (case slave_drivers drivers db (Suc idx) slaves of
             Inl e \<Rightarrow> Inl e
           | Inr d \<Rightarrow>
               Inr ((Replica idx, driverFunc \<lparr>cfg_DatabaseURL = slave,
                       cfg_MigrationsTableName = MigrationsTableName db\<rparr>) # d)))"

definition GetSlaveDrivers :: "'s registry \<Rightarrow> DB \<Rightarrow> error + 's handle list" where
  "GetSlaveDrivers drivers db = slave_drivers drivers db 0 (SlaveDatabases db)"

definition GetAllDrivers :: "'s registry \<Rightarrow> DB \<Rightarrow> error + 's handle list" where
  "GetAllDrivers drivers db =
     (case GetDriver drivers db of
        Inl e \<Rightarrow> Inl e
      | Inr drv \<Rightarrow>
          (case GetSlaveDrivers drivers db of
             Inl e \<Rightarrow> Inl e
           | Inr slavesDrv \<Rightarrow> Inr ([drv] @ slavesDrv)))"

subsection \<open>Waiting for a database\<close>

text \<open>The sum of two durations wraps around as the 64-bit integers of Go do.\<close>

definition wrap64 :: "int \<Rightarrow> int" where
  "wrap64 x = (x + 2 ^ 63) mod 2 ^ 64 - 2 ^ 63"

text \<open>
  The inner loop of \<^verbatim>\<open>wait\<close>, \<^verbatim>\<open>for i := 0 * time.Second; i < db.WaitTimeout; i += db.WaitInterval\<close>.
  It has no \<^verbatim>\<open>break\<close> and no \<^verbatim>\<open>return\<close>: a ping that succeeds sets \<open>successful\<close> and the loop
  goes on. With an interval that is not positive the loop may never end: the result is
  \<open>None\<close> then. \<open>err\<close> is the error of the last ping.
\<close>

partial_function (option) wait_retry ::
  "DB \<Rightarrow> 's handle \<Rightarrow> int \<Rightarrow> bool \<Rightarrow> string option \<Rightarrow> 's world \<Rightarrow>
   ((bool \<times> string option) \<times> 's world) option" where
  "wait_retry db drv i successful err w =
     (if i < WaitTimeout db then
        (case call drv Ping (sleep (WaitInterval db) w) of
           (r, w1) \<Rightarrow>
             wait_retry db drv (wrap64 (i + WaitInterval db))
               (successful \<or> err_of r = None) (err_of r) w1)
      else Some ((successful, err), w))"

declare wait_retry.simps [code]

text \<open>
  The body of the outer loop for one driver: the first ping, and the retries when it
  fails.
\<close>

definition wait_one ::
  "DB \<Rightarrow> 's handle \<Rightarrow> 's world \<Rightarrow> ((bool \<times> string option) \<times> 's world) option" where
  "wait_one db drv w =
     (case call drv Ping w of
        (r, w1) \<Rightarrow>
          if err_of r = None then Some ((True, None), w1)
          else wait_retry db drv 0 False (err_of r) w1)"

text \<open>\<^verbatim>\<open>fmt.Errorf("%w: %s", ErrCantConnect, err)\<close> keeps the message of the last error.\<close>

definition cant_connect :: "string option \<Rightarrow> error" where
  "cant_connect err = ErrCantConnect (case err of None \<Rightarrow> ''%!s(<nil>)'' | Some msg \<Rightarrow> msg)"

fun wait :: "DB \<Rightarrow> 's handle list \<Rightarrow> 's world \<Rightarrow> ((error + unit) \<times> 's world) option" where
  "wait db [] w = Some (Inr (), w)"
| "wait db (drv # d) w =
     (case wait_one db drv w of
        None \<Rightarrow> None
      | Some ((successful, err), w1) \<Rightarrow>
          if \<not> successful then Some (Inl (cant_connect err), w1) else wait db d w1)"

definition Wait :: "'s registry \<Rightarrow> DB \<Rightarrow> 's world \<Rightarrow> ((error + unit) \<times> 's world) option" where
  "Wait drivers db w =
     (case GetDriver drivers db of
        Inl e \<Rightarrow> Some (Inl e, w)
      | Inr drv \<Rightarrow> wait db [drv] w)"

text \<open>Sequencing of a step that may not return with what follows it.\<close>

definition after ::
  "((error + 'a) \<times> 's world) option \<Rightarrow> ('a \<Rightarrow> 's world \<Rightarrow> ((error + 'b) \<times> 's world) option) \<Rightarrow>
   ((error + 'b) \<times> 's world) option" where
  "after step rest =
     (case step of
        None \<Rightarrow> None
      | Some (Inl e, w) \<Rightarrow> Some (Inl e, w)
      | Some (Inr x, w) \<Rightarrow> rest x w)"

subsection \<open>Create and Drop\<close>

fun create_all :: "'s handle list \<Rightarrow> 's world \<Rightarrow> (error + unit) \<times> 's world" where
  "create_all [] w = (Inr (), w)"
| "create_all (d # drvs) w =
     (case call_err d CreateDatabase w of
        (Inl e, w1) \<Rightarrow> (Inl e, w1)
      | (Inr u, w1) \<Rightarrow> create_all drvs w1)"

definition Create :: "'s registry \<Rightarrow> DB \<Rightarrow> 's world \<Rightarrow> ((error + unit) \<times> 's world) option" where
  "Create drivers db w =
     (case GetDriver drivers db of
        Inl e \<Rightarrow> Some (Inl e, w)
      | Inr drv \<Rightarrow>
          (case GetSlaveDrivers drivers db of
             Inl e \<Rightarrow> Some (Inl e, w)
           | Inr slavesDrv \<Rightarrow>
               (let drvs = [drv] @ slavesDrv
                in after (if WaitBefore db then wait db drvs w else Some (Inr (), w))
                     (\<lambda>u w1. Some (create_all drvs w1)))))"

fun drop_all :: "'s handle list \<Rightarrow> 's world \<Rightarrow> (error + unit) \<times> 's world" where
  "drop_all [] w = (Inr (), w)"
| "drop_all (drv # drvs) w =
     (case call_err drv DropDatabase w of
        (Inl e, w1) \<Rightarrow> (Inl e, w1)
      | (Inr u, w1) \<Rightarrow> drop_all drvs w1)"

text \<open>
  \<^verbatim>\<open>Drop\<close> takes the drivers of \<^verbatim>\<open>GetAllDrivers\<close>, the primary and the replicas, and appends
  the drivers of \<^verbatim>\<open>GetSlaveDrivers\<close> to them.
\<close>

definition Drop :: "'s registry \<Rightarrow> DB \<Rightarrow> 's world \<Rightarrow> ((error + unit) \<times> 's world) option" where
  "Drop drivers db w =
     (case GetAllDrivers drivers db of
        Inl e \<Rightarrow> Some (Inl e, w)
      | Inr drvs \<Rightarrow>
          (case GetSlaveDrivers drivers db of
             Inl e \<Rightarrow> Some (Inl e, w)
           | Inr slavesDrv \<Rightarrow>
               (let drvs1 = drvs @ slavesDrv
                in after (if WaitBefore db then wait db drvs1 w else Some (Inr (), w))
                     (\<lambda>u w1. Some (drop_all drvs1 w1)))))"

section \<open>Migrate\<close>

text \<open>
  The files the orchestrator reads, and the outcome of what it writes: the listing of the
  migrations directory, the contents of a file of that directory by its name (or the
  message of the error of \<^verbatim>\<open>os.ReadFile\<close>), the error of \<^verbatim>\<open>os.MkdirAll\<close> for the directory of
  the schema file, and the error of \<^verbatim>\<open>os.WriteFile\<close> for the bytes of the schema.
\<close>

record filesystem =
  ReadDir :: dir_listing
  ReadFile :: "string \<Rightarrow> string + string"
  MkdirAll :: "string option"
  WriteFile :: "string \<Rightarrow> string option"

definition openDatabaseForMigration :: "'s handle \<Rightarrow> 's world \<Rightarrow> (error + unit) \<times> 's world" where
  "openDatabaseForMigration drv w =
     (case call_err drv Open w of
        (Inl e, w1) \<Rightarrow> (Inl e, w1)
      | (Inr u, w1) \<Rightarrow>
          (case call_err drv CreateMigrationsTable w1 of
             (Inl e, w2) \<Rightarrow> (Inl e, snd (call drv Close w2))
           | (Inr u, w2) \<Rightarrow> (Inr (), w2)))"

text \<open>
  \<^verbatim>\<open>dumpSchema\<close> after its wait: the handle is opened and released at the exit, the schema is
  asked of the driver and written to the file.
\<close>

definition write_schema :: "filesystem \<Rightarrow> string \<Rightarrow> 's world \<Rightarrow> (error + unit) \<times> 's world" where
  "write_schema fs schema w =
     (let w1 = w\<lparr>trace := trace w @ [EnsureDir (MkdirAll fs)]\<rparr>
      in case MkdirAll fs of
           Some msg \<Rightarrow> (Inl ErrCreateDirectory, w1)
         | None \<Rightarrow>
             (let w2 = w1\<lparr>trace := trace w1 @ [WriteSchema schema (WriteFile fs schema)]\<rparr>
              in case WriteFile fs schema of
                   Some msg \<Rightarrow> (Inl (External msg), w2)
                 | None \<Rightarrow> (Inr (), w2)))"

definition dump_opened :: "filesystem \<Rightarrow> 's handle \<Rightarrow> 's world \<Rightarrow> (error + unit) \<times> 's world" where
  "dump_opened fs drv w =
     (case call drv DumpSchema w of
        (r, w1) \<Rightarrow>
          (case err_of r of
             Some msg \<Rightarrow> (Inl (External msg), w1)
           | None \<Rightarrow> write_schema fs (bytes_of r) w1))"

definition dump_after_wait :: "filesystem \<Rightarrow> 's handle \<Rightarrow> 's world \<Rightarrow> (error + unit) \<times> 's world" where
  "dump_after_wait fs drv w =
     (case openDatabaseForMigration drv w of
        (Inl e, w1) \<Rightarrow> (Inl e, w1)
      | (Inr u, w1) \<Rightarrow>
          (case dump_opened fs drv w1 of
             (r, w2) \<Rightarrow> (r, snd (call drv Close w2))))"

definition dumpSchema ::
  "DB \<Rightarrow> filesystem \<Rightarrow> 's handle \<Rightarrow> 's world \<Rightarrow> ((error + unit) \<times> 's world) option" where
  "dumpSchema db fs drv w =
     after (if WaitBefore db then wait db [drv] w else Some (Inr (), w))
       (\<lambda>u w1. Some (dump_after_wait fs drv w1))"

text \<open>
  \<^verbatim>\<open>doTransaction\<close>: the error of \<^verbatim>\<open>Begin\<close> ends it; an error of the function rolls the
  transaction back, and the error of the rollback, if any, replaces it.
\<close>

definition doTransaction ::
  "'s handle \<Rightarrow> ('s world \<Rightarrow> (error + unit) \<times> 's world) \<Rightarrow> 's world \<Rightarrow>
   (error + unit) \<times> 's world" where
  "doTransaction drv txFunc w =
     (case call_err drv Begin w of
        (Inl e, w1) \<Rightarrow> (Inl e, w1)
      | (Inr u, w1) \<Rightarrow>
          (case txFunc w1 of
             (Inl e, w2) \<Rightarrow>
               (case call_err drv TxRollback w2 of
                  (Inl e1, w3) \<Rightarrow> (Inl e1, w3)
                | (Inr u, w3) \<Rightarrow> (Inl e, w3))
           | (Inr u, w2) \<Rightarrow> call_err drv Commit w2))"

text \<open>
  The function \<^verbatim>\<open>getExecMigration\<close> builds, in \<^verbatim>\<open>migrate\<close> and in \<^verbatim>\<open>Rollback\<close>: the contents of
  the block are executed, then the version is recorded; \<open>record_call\<close> is \<open>InsertMigration\<close>
  in the first and \<open>DeleteMigration\<close> in the second. \<open>in_tx\<close> says whether \<open>tx\<close> is a
  transaction or the handle itself.
\<close>

definition execMigration ::
  "'s handle \<Rightarrow> Migration \<Rightarrow> (bool \<Rightarrow> string \<Rightarrow> call) \<Rightarrow> string \<Rightarrow> bool \<Rightarrow> 's world \<Rightarrow>
   (error + unit) \<times> 's world" where
  "execMigration d m record_call ver in_tx w =
     (case call_err d (Exec in_tx (Contents m)) w of
        (Inl e, w1) \<Rightarrow> (Inl e, w1)
      | (Inr u, w1) \<Rightarrow> call_err d (record_call in_tx ver) w1)"

text \<open>The choice between the transaction and the bare handle, by the option of the block.\<close>

definition run_block ::
  "'s handle \<Rightarrow> Migration \<Rightarrow> (bool \<Rightarrow> string \<Rightarrow> call) \<Rightarrow> string \<Rightarrow> 's world \<Rightarrow>
   (error + unit) \<times> 's world" where
  "run_block d m record_call ver w =
     (if Transaction (Options m) then doTransaction d (execMigration d m record_call ver True) w
      else execMigration d m record_call ver False w)"

text \<open>
  The loops \<^verbatim>\<open>for idx, slaveDrv := range slavesDrv\<close> that run a block on the replicas: every
  driver of the list, in its order, until the first error.
\<close>

fun run_on_slaves ::
  "'s handle list \<Rightarrow> Migration \<Rightarrow> (bool \<Rightarrow> string \<Rightarrow> call) \<Rightarrow> string \<Rightarrow> 's world \<Rightarrow>
   (error + unit) \<times> 's world" where
  "run_on_slaves [] m record_call ver w = (Inr (), w)"
| "run_on_slaves (slaveDrv # rest) m record_call ver w =
     (case run_block slaveDrv m record_call ver w of
        (Inl e, w1) \<Rightarrow> (Inl e, w1)
      | (Inr u, w1) \<Rightarrow> run_on_slaves rest m record_call ver w1)"

text \<open>
  A result of \<^verbatim>\<open>SelectMigrations\<close> is a \<^verbatim>\<open>map[string]bool\<close>, kept as the list of its entries
  in the order in which \<^verbatim>\<open>range\<close> visits them. \<^verbatim>\<open>applied[ver]\<close> is false for an absent key.
\<close>

definition applied_has :: "(string \<times> bool) list \<Rightarrow> string \<Rightarrow> bool" where
  "applied_has applied ver = (case map_of applied ver of None \<Rightarrow> False | Some b \<Rightarrow> b)"

text \<open>
  The loop of \<^verbatim>\<open>migrate\<close> that opens the replicas and reads what each has applied. It sets
  \<^verbatim>\<open>appliedSlaves[idx]\<close> in the order of the indices.
\<close>

fun open_slaves ::
  "'s handle list \<Rightarrow> 's world \<Rightarrow> (error + (string \<times> bool) list list) \<times> 's world" where
  "open_slaves [] w = (Inr [], w)"
| "open_slaves (slaveDrv # rest) w =
     (case openDatabaseForMigration slaveDrv w of
        (Inl e, w1) \<Rightarrow> (Inl e, w1)
      | (Inr u, w1) \<Rightarrow>
          (case selectMigrations slaveDrv (- 1) (defer_close slaveDrv w1) of
             (Inl e, w2) \<Rightarrow> (Inl e, w2)
           | (Inr applied, w2) \<Rightarrow>
               (case open_slaves rest w2 of
                  (Inl e, w3) \<Rightarrow> (Inl e, w3)
                | (Inr others, w3) \<Rightarrow> (Inr (applied # others), w3))))"

text \<open>
  The loop over the files, lines 723 to 802. \<open>applyToSlaves\<close> is computed and only its length
  is read: the block for the replicas runs on every driver of \<open>slavesDrv\<close>.
\<close>

fun migrate_files ::
  "filesystem \<Rightarrow> 's handle \<Rightarrow> 's handle list \<Rightarrow> (string \<times> bool) list \<Rightarrow>
   (string \<times> bool) list list \<Rightarrow> string list \<Rightarrow> 's world \<Rightarrow> (error + unit) \<times> 's world" where
  "migrate_files fs drv slavesDrv applied appliedSlaves [] w = (Inr (), w)"
| "migrate_files fs drv slavesDrv applied appliedSlaves (filename # files) w =
     (let ver = migrationVersion filename;
          applyToMaster = \<not> applied_has applied ver;
          applyToSlaves =
            filter (\<lambda>idx. \<not> applied_has (appliedSlaves ! idx) ver) [0..<length slavesDrv]
      in if \<not> applyToMaster \<and> length applyToSlaves = 0
         then migrate_files fs drv slavesDrv applied appliedSlaves files w
         else
           (case parseMigration (ReadFile fs) filename of
              Inl e \<Rightarrow> (Inl e, w)
            | Inr (up, down, upSlave, downSlave) \<Rightarrow>
                (case run_on_slaves slavesDrv upSlave InsertMigration ver w of
                   (Inl e, w1) \<Rightarrow> (Inl e, w1)
                 | (Inr u, w1) \<Rightarrow>
                     (case (if applyToMaster then run_block drv up InsertMigration ver w1
                            else (Inr (), w1)) of
                        (Inl e, w2) \<Rightarrow> (Inl e, w2)
                      | (Inr u, w2) \<Rightarrow>
                          migrate_files fs drv slavesDrv applied appliedSlaves files w2))))"

text \<open>\<^verbatim>\<open>migrate\<close> from the opening of the primary to the end of the loop over the files.\<close>

definition migrate_opened ::
  "filesystem \<Rightarrow> 's handle \<Rightarrow> 's handle list \<Rightarrow> string list \<Rightarrow> 's world \<Rightarrow>
   (error + unit) \<times> 's world" where
  "migrate_opened fs drv slavesDrv files w =
     (case openDatabaseForMigration drv w of
        (Inl e, w1) \<Rightarrow> (Inl e, w1)
      | (Inr u, w1) \<Rightarrow>
          (case selectMigrations drv (- 1) (defer_close drv w1) of
             (Inl e, w2) \<Rightarrow> (Inl e, w2)
           | (Inr applied, w2) \<Rightarrow>
               (case open_slaves slavesDrv w2 of
                  (Inl e, w3) \<Rightarrow> (Inl e, w3)
                | (Inr appliedSlaves, w3) \<Rightarrow>
                    migrate_files fs drv slavesDrv applied appliedSlaves files w3)))"

text \<open>
  The end of \<^verbatim>\<open>migrate\<close> and of \<^verbatim>\<open>Rollback\<close>: after a success the schema is dumped and the
  error of the dump is dropped; then the deferred releases run, on every path.
\<close>

definition dump_and_release ::
  "DB \<Rightarrow> filesystem \<Rightarrow> 's handle \<Rightarrow> (error + unit) \<times> 's world \<Rightarrow>
   ((error + unit) \<times> 's world) option" where
  "dump_and_release db fs drv outcome =
     (case outcome of
        (Inl e, w) \<Rightarrow> Some (Inl e, run_deferred w)
      | (Inr u, w) \<Rightarrow>
          if AutoDumpSchema db then
            (case dumpSchema db fs drv w of
               None \<Rightarrow> None
             | Some (r, w1) \<Rightarrow> Some (Inr (), run_deferred w1))
          else Some (Inr (), run_deferred w))"

definition wait_both ::
  "DB \<Rightarrow> 's handle \<Rightarrow> 's handle list \<Rightarrow> 's world \<Rightarrow> ((error + unit) \<times> 's world) option" where
  "wait_both db drv slavesDrv w =
     (if WaitBefore db then after (wait db [drv] w) (\<lambda>u w1. wait db slavesDrv w1)
      else Some (Inr (), w))"

definition migrate ::
  "DB \<Rightarrow> filesystem \<Rightarrow> 's handle \<Rightarrow> 's handle list \<Rightarrow> 's world \<Rightarrow>
   ((error + unit) \<times> 's world) option" where
  "migrate db fs drv slavesDrv w =
     (case findMigrationFiles (ReadDir fs) migrationFileRegexp of
        Inl e \<Rightarrow> Some (Inl e, w)
      | Inr files \<Rightarrow>
          if length files = 0 then Some (Inl ErrNoMigrationFiles, w)
          else
            after (wait_both db drv slavesDrv w)
              (\<lambda>u w1. dump_and_release db fs drv
                 (migrate_opened fs drv slavesDrv files (w1\<lparr>deferred := []\<rparr>))))"

definition Migrate ::
  "'s registry \<Rightarrow> DB \<Rightarrow> filesystem \<Rightarrow> 's world \<Rightarrow> ((error + unit) \<times> 's world) option" where
  "Migrate drivers db fs w =
     (case GetDriver drivers db of
        Inl e \<Rightarrow> Some (Inl e, w)
      | Inr drv \<Rightarrow>
          (case GetSlaveDrivers drivers db of
             Inl e \<Rightarrow> Some (Inl e, w)
           | Inr slavesDrv \<Rightarrow> migrate db fs drv slavesDrv w))"

section \<open>Rollback\<close>

text \<open>
  \<^verbatim>\<open>regexp.QuoteMeta\<close> puts a backslash before each of the bytes \<^verbatim>\<open>\.+*?()|[]{}^$\<close>.
\<close>

definition QuoteMeta :: "string \<Rightarrow> string" where
  "QuoteMeta s =
     concat (map (\<lambda>c. if c \<in> set (CHR 0x5C # ''.+*?()|[]{}^$'') then [CHR 0x5C, c] else [c]) s)"

text \<open>
  The expression of \<^verbatim>\<open>findMigrationFile\<close> holds the version, and Go's regexp package reads
  an expression and its input rune by rune. \<open>rune_width\<close> is \<^verbatim>\<open>utf8.DecodeRuneInString\<close>: the
  number of bytes of the encoding at the head of the string, 0 when the head is no valid
  encoding (Go then reads one byte as the rune U+FFFD). \<open>rune_tail\<close> gives, for a first byte,
  the bounds of the bytes that must follow it.
\<close>

definition rune_tail :: "char \<Rightarrow> (char \<times> char) list option" where
  "rune_tail c =
     (if c < CHR 0x80 then Some []
      else if CHR 0xC2 \<le> c \<and> c \<le> CHR 0xDF then Some [(CHR 0x80, CHR 0xBF)]
      else if c = CHR 0xE0 then Some [(CHR 0xA0, CHR 0xBF), (CHR 0x80, CHR 0xBF)]
      else if c = CHR 0xED then Some [(CHR 0x80, CHR 0x9F), (CHR 0x80, CHR 0xBF)]
      else if CHR 0xE1 \<le> c \<and> c \<le> CHR 0xEF then Some [(CHR 0x80, CHR 0xBF), (CHR 0x80, CHR 0xBF)]
      else if c = CHR 0xF0
        then Some [(CHR 0x90, CHR 0xBF), (CHR 0x80, CHR 0xBF), (CHR 0x80, CHR 0xBF)]
      else if CHR 0xF1 \<le> c \<and> c \<le> CHR 0xF3
        then Some [(CHR 0x80, CHR 0xBF), (CHR 0x80, CHR 0xBF), (CHR 0x80, CHR 0xBF)]
      else if c = CHR 0xF4
        then Some [(CHR 0x80, CHR 0x8F), (CHR 0x80, CHR 0xBF), (CHR 0x80, CHR 0xBF)]
      else None)"

fun within :: "(char \<times> char) list \<Rightarrow> string \<Rightarrow> bool" where
  "within [] cs = True"
| "within (r # rs) [] = False"
| "within (r # rs) (c # cs) = (fst r \<le> c \<and> c \<le> snd r \<and> within rs cs)"

definition rune_width :: "string \<Rightarrow> nat" where
  "rune_width s =
     (case s of
        [] \<Rightarrow> 0
      | c # cs \<Rightarrow>
          (case rune_tail c of
             None \<Rightarrow> 0
           | Some rs \<Rightarrow> if within rs cs then Suc (length rs) else 0))"

text \<open>
  The runes of a string, each as the bytes of its encoding; a byte that starts no valid
  encoding is the rune U+FFFD. \<open>skip\<close> counts the bytes left of the rune in progress.
\<close>

fun runes_from :: "nat \<Rightarrow> string \<Rightarrow> string list" where
  "runes_from skip [] = []"
| "runes_from skip (c # cs) =
     (if skip > 0 then runes_from (skip - 1) cs
      else (case rune_width (c # cs) of
              0 \<Rightarrow> [CHR 0xEF, CHR 0xBF, CHR 0xBD] # runes_from 0 cs
            | Suc n \<Rightarrow> take (Suc n) (c # cs) # runes_from n cs))"

definition runes :: "string \<Rightarrow> string list" where
  "runes s = runes_from 0 s"

text \<open>
  \<^verbatim>\<open>regexp.MustCompile\<close> panics on an expression that is not valid UTF-8: one that has a
  byte which starts no valid encoding.
\<close>

fun valid_from :: "nat \<Rightarrow> string \<Rightarrow> bool" where
  "valid_from skip [] = True"
| "valid_from skip (c # cs) =
     (if skip > 0 then valid_from (skip - 1) cs
      else (case rune_width (c # cs) of 0 \<Rightarrow> False | Suc n \<Rightarrow> valid_from n cs))"

definition valid_utf8 :: "string \<Rightarrow> bool" where
  "valid_utf8 s = valid_from 0 s"

text \<open>
  The expression \<^verbatim>\<open>^%s.*\.sql$\<close> of \<^verbatim>\<open>findMigrationFile\<close> with the quoted version in the place
  of \<^verbatim>\<open>%s\<close>: the quoted runes stand for themselves, so the runes of the name start with
  those of the version, end with those of \<^verbatim>\<open>.sql\<close>, and have no newline between the two.
\<close>

definition version_file_regexp :: "string \<Rightarrow> string \<Rightarrow> bool" where
  "version_file_regexp ver name =
     (case strip_prefix (runes ver) (runes name) of
        None \<Rightarrow> False
      | Some rest \<Rightarrow>
          (case strip_suffix (runes ''.sql'') rest of
             None \<Rightarrow> False
           | Some middle \<Rightarrow> [nl] \<notin> set middle))"

definition findMigrationFile :: "dir_listing \<Rightarrow> string \<Rightarrow> error + string" where
  "findMigrationFile dir ver =
     (if ver = [] then Inl (Panic ''migration version is required'')
      else if \<not> valid_utf8 ver then Inl (Panic ''regexp: Compile: invalid UTF-8'')
      else
        (case findMigrationFiles dir (version_file_regexp ver) of
           Inl e \<Rightarrow> Inl e
         | Inr files \<Rightarrow>
             if length files = 0 then Inl (ErrMigrationNotFound (QuoteMeta ver))
             else Inr (files ! 0)))"







section \<open>A driver for concrete runs\<close>

text \<open>
  Modelled from the spec: the drivers of the repository are not part of the sources. This
  one follows the driver contract of the spec with a ledger in memory for each database,
  named by the address of its URL: \<open>SelectMigrations\<close> gives the applied versions in
  descending order, all of them for a negative limit, \<open>InsertMigration\<close> and
  \<open>DeleteMigration\<close> add and remove a version, and the first \<open>pings_to_fail\<close> pings fail.
  Every other call succeeds. It serves the concrete runs below; the theorems on all
  drivers do not use it.
\<close>

record sim =
  ledgers :: "(string \<times> string list) list"
  pings_to_fail :: nat

definition ledger_of :: "sim \<Rightarrow> string \<Rightarrow> string list" where
  "ledger_of s name = (case map_of (ledgers s) name of None \<Rightarrow> [] | Some vs \<Rightarrow> vs)"

definition mem_driver :: "DriverConfig \<Rightarrow> sim Driver" where
  "mem_driver cfg c s =
     (let name = Address (cfg_DatabaseURL cfg);
          newest_first = rev (sort (ledger_of s name))
      in case c of
           Ping \<Rightarrow>
             if pings_to_fail s > 0
             then (Failed ''connection refused'', s\<lparr>pings_to_fail := pings_to_fail s - 1\<rparr>)
             else (Done, s)
         | SelectMigrations limit \<Rightarrow>
             (Versions (map (\<lambda>v. (v, True))
                (if limit < 0 then newest_first else take (nat limit) newest_first)), s)
         | InsertMigration in_tx ver \<Rightarrow>
             (Done, s\<lparr>ledgers := (name, ver # ledger_of s name) # ledgers s\<rparr>)
         | DeleteMigration in_tx ver \<Rightarrow>
             (Done, s\<lparr>ledgers := (name, removeAll ver (ledger_of s name)) # ledgers s\<rparr>)
         | DumpSchema \<Rightarrow> (Bytes ''schema'', s)
         | DatabaseExists \<Rightarrow> (Flag True, s)
         | MigrationsTableExists \<Rightarrow> (Flag True, s)
         | _ \<Rightarrow> (Done, s))"

definition mem_registry :: "sim registry" where
  "mem_registry scheme = (if scheme = ''mem'' then Some mem_driver else None)"

text \<open>A configuration with one replica, and the world before a run.\<close>

definition one_replica :: DB where
  "one_replica =
     \<lparr>AutoDumpSchema = False,
      DatabaseURL = Some \<lparr>Scheme = ''mem'', Address = ''primary''\<rparr>,
      SlaveDatabases = [\<lparr>Scheme = ''mem'', Address = ''replica''\<rparr>],
      MigrationsTableName = ''schema_migrations'',
      WaitBefore = False, WaitInterval = 1, WaitTimeout = 3\<rparr>"

definition start :: "(string \<times> string list) list \<Rightarrow> nat \<Rightarrow> sim world" where
  "start ls n = \<lparr>state = \<lparr>ledgers = ls, pings_to_fail = n\<rparr>, trace = [], deferred = []\<rparr>"

text \<open>The drivers of that configuration, as \<open>GetDriver\<close> and \<open>GetSlaveDrivers\<close> build them.\<close>

definition primary_handle :: "sim handle" where
  "primary_handle =
     (Primary, mem_driver \<lparr>cfg_DatabaseURL = \<lparr>Scheme = ''mem'', Address = ''primary''\<rparr>,
                 cfg_MigrationsTableName = ''schema_migrations''\<rparr>)"

definition replica_handle :: "sim handle" where
  "replica_handle =
     (Replica 0, mem_driver \<lparr>cfg_DatabaseURL = \<lparr>Scheme = ''mem'', Address = ''replica''\<rparr>,
                   cfg_MigrationsTableName = ''schema_migrations''\<rparr>)"

text \<open>A directory of migration files with their contents.\<close>

definition files_in :: "(string \<times> string) list \<Rightarrow> filesystem" where
  "files_in fs =
     \<lparr>ReadDir = Some (map (\<lambda>f. (fst f, False)) fs),
      ReadFile = (\<lambda>name. case map_of fs name of
                            None \<Rightarrow> Inl ''no such file or directory''
                          | Some data \<Rightarrow> Inr data),
      MkdirAll = None,
      WriteFile = (\<lambda>schema. None)\<rparr>"

text \<open>What a run returns and what it did.\<close>

definition outcome ::
  "((error + unit) \<times> 's world) option \<Rightarrow> ((error + unit) \<times> event list) option" where
  "outcome run = map_option (\<lambda>rw. (fst rw, trace (snd rw))) run"

section \<open>Notions for the properties of the runs\<close>

text \<open>The events of the world \<open>w'\<close> that the world \<open>w\<close>, earlier in the same run, has not yet.\<close>

definition since :: "'s world \<Rightarrow> 's world \<Rightarrow> event list" where
  "since w w' = drop (length (trace w)) (trace w')"

text \<open>A run from \<open>w\<close> to \<open>w'\<close> that adds the events \<open>evs\<close> to the trace.\<close>

definition run :: "'s world \<Rightarrow> event list \<Rightarrow> 's world \<Rightarrow> bool" where
  "run w evs w' = (trace w' = trace w @ evs)"

text \<open>
  The calls that execute a block or change a ledger, with the calls that bracket a
  transaction; and the reads of a ledger.
\<close>

definition is_write :: "event \<Rightarrow> bool" where
  "is_write ev =
     (case ev of
        Call t c r \<Rightarrow>
          (case c of
             Exec in_tx s \<Rightarrow> True
           | InsertMigration in_tx ver \<Rightarrow> True
           | DeleteMigration in_tx ver \<Rightarrow> True
           | Begin \<Rightarrow> True
           | Commit \<Rightarrow> True
           | TxRollback \<Rightarrow> True
           | _ \<Rightarrow> False)
      | _ \<Rightarrow> False)"

definition is_select :: "event \<Rightarrow> bool" where
  "is_select ev =
     (case ev of
        Call t c r \<Rightarrow> (case c of SelectMigrations limit \<Rightarrow> True | _ \<Rightarrow> False)
      | _ \<Rightarrow> False)"

definition quiet :: "event \<Rightarrow> bool" where
  "quiet ev = (\<not> is_write ev \<and> \<not> is_select ev)"

text \<open>The events that are calls to one of the given drivers.\<close>

definition calls_to :: "'s handle list \<Rightarrow> event \<Rightarrow> bool" where
  "calls_to drvs ev = (case ev of Call t c r \<Rightarrow> t \<in> fst ` set drvs | _ \<Rightarrow> False)"

text \<open>The three errors of the parser.\<close>

definition parse_error :: "error \<Rightarrow> bool" where
  "parse_error e =
     (e = ErrParseMissingUp \<or> e = ErrParseUnexpectedStmt \<or> e = ErrParseDuplicateBlock)"

text \<open>A run that adds quiet events only.\<close>

definition quietly :: "'s world \<Rightarrow> 's world \<Rightarrow> bool" where
  "quietly w w' = (\<exists>evs. run w evs w' \<and> (\<forall>ev \<in> set evs. quiet ev))"

text \<open>A run that adds only events with the property \<open>P\<close>.\<close>

definition only :: "(event \<Rightarrow> bool) \<Rightarrow> 's world \<Rightarrow> 's world \<Rightarrow> bool" where
  "only P w w' = (\<exists>evs. run w evs w' \<and> (\<forall>ev \<in> set evs. P ev))"


text \<open>The events of a block that runs on the driver \<open>d\<close>: calls to \<open>d\<close> that read no ledger.\<close>

definition block_event :: "'s handle \<Rightarrow> event \<Rightarrow> bool" where
  "block_event d ev = (calls_to [d] ev \<and> \<not> is_select ev)"





section \<open>Properties of the options\<close>

text \<open>
  C10. \<open>Transaction\<close> is false exactly when the options bind the key \<open>transaction\<close> to the
  string \<open>false\<close>; with the key absent or bound to any other string it is true.
\<close>

theorem Transaction_false_iff:
  "(Transaction m = False) = (m ''transaction'' = Some ''false'')"
  by (cases "m ''transaction''") (simp_all add: Transaction_def go_index_def)

section \<open>Properties of the migration-file store\<close>

lemma mset_matching_names:
  "mset (matching_names re files) = mset (map fst (filter (\<lambda>e. \<not> snd e \<and> re (fst e)) files))"
  by (induction re files rule: matching_names.induct) simp_all

lemma digits_plus_takeWhile:
  "digits_plus s = (if takeWhile is_digit s = [] then None else Some (length (takeWhile is_digit s)))"
  by (induction s) (simp_all split: option.splits)

lemma migrationVersion_takeWhile: "migrationVersion f = takeWhile is_digit f"
proof (cases "takeWhile is_digit f = []")
  case True
  then show ?thesis by (simp add: migrationVersion_def digits_plus_takeWhile)
next
  case False
  have "take (length (takeWhile is_digit f)) f = takeWhile is_digit f"
    by (induction f) simp_all
  with False show ?thesis by (simp add: migrationVersion_def digits_plus_takeWhile)
qed


lemma strip_prefix_Some: "(strip_prefix p s = Some r) = (s = p @ r)"
  by (induction p s rule: strip_prefix.induct) auto

lemma strip_prefix_None: "(strip_prefix p s = None) = (\<forall>r. s \<noteq> p @ r)"
  by (metis strip_prefix_Some not_Some_eq)

lemma strip_suffix_Some: "(strip_suffix p s = Some m) = (s = m @ p)"
proof -
  have "(strip_suffix p s = Some m) = (\<exists>r. strip_prefix (rev p) (rev s) = Some r \<and> rev r = m)"
    by (auto simp: strip_suffix_def)
  also have "\<dots> = (\<exists>r. rev s = rev p @ r \<and> rev r = m)"
    by (simp add: strip_prefix_Some)
  also have "\<dots> = (s = m @ p)"
    by (metis rev_append rev_rev_ident)
  finally show ?thesis .
qed

lemma migrationFileRegexp_iff:
  "migrationFileRegexp name =
     (\<exists>c middle. name = c # middle @ ''.sql'' \<and> is_digit c \<and> nl \<notin> set middle)"
proof (cases name)
  case Nil
  then show ?thesis by (simp add: migrationFileRegexp_def)
next
  case (Cons c rest)
  show ?thesis
  proof (cases "strip_suffix ''.sql'' rest")
    case None
    then have "\<forall>m. rest \<noteq> m @ ''.sql''"
      by (metis strip_suffix_Some option.distinct(1))
    with None Cons show ?thesis by (simp add: migrationFileRegexp_def)
  next
    case (Some middle)
    then have "rest = middle @ ''.sql''"
      by (simp only: strip_suffix_Some)
    with Some Cons show ?thesis by (simp add: migrationFileRegexp_def)
  qed
qed

text \<open>
  C7. \<open>findMigrationFiles\<close> fails with \<open>ErrMigrationDirNotFound\<close> when the directory cannot be
  read; otherwise it returns, sorted in the lexicographic order of strings, exactly the names
  of the entries that are not directories and that the expression accepts, and the expression
  of migration files accepts the names made of a digit, bytes without a newline and the ending
  \<open>.sql\<close>. \<open>migrationVersion\<close> is the longest run of digits at the start of the name.
\<close>

theorem findMigrationFiles_sorted_matches:
  "findMigrationFiles None re = Inl ErrMigrationDirNotFound \<and>
   (\<exists>names. findMigrationFiles (Some files) re = Inr names \<and> sorted names \<and>
      mset names = mset (map fst (filter (\<lambda>e. \<not> snd e \<and> re (fst e)) files))) \<and>
   (migrationFileRegexp name =
      (\<exists>c middle. name = c # middle @ ''.sql'' \<and> is_digit c \<and> nl \<notin> set middle)) \<and>
   migrationVersion f = takeWhile is_digit f \<and>
   (\<exists>rest. f = migrationVersion f @ rest \<and> (\<forall>c \<in> set (migrationVersion f). is_digit c) \<and>
      (rest = [] \<or> \<not> is_digit (hd rest)))"
proof (intro conjI)
  show "findMigrationFiles None re = Inl ErrMigrationDirNotFound"
    by (simp add: findMigrationFiles_def)
  show "\<exists>names. findMigrationFiles (Some files) re = Inr names \<and> sorted names \<and>
      mset names = mset (map fst (filter (\<lambda>e. \<not> snd e \<and> re (fst e)) files))"
    by (simp add: findMigrationFiles_def mset_matching_names)
  show "migrationFileRegexp name =
      (\<exists>c middle. name = c # middle @ ''.sql'' \<and> is_digit c \<and> nl \<notin> set middle)"
    by (rule migrationFileRegexp_iff)
  show "migrationVersion f = takeWhile is_digit f"
    by (rule migrationVersion_takeWhile)
  have "f = takeWhile is_digit f @ dropWhile is_digit f"
    by simp
  moreover have "\<forall>c \<in> set (takeWhile is_digit f). is_digit c"
    by (auto dest: set_takeWhileD)
  moreover have "dropWhile is_digit f = [] \<or> \<not> is_digit (hd (dropWhile is_digit f))"
    by (metis hd_dropWhile)
  ultimately show "\<exists>rest. f = migrationVersion f @ rest \<and>
      (\<forall>c \<in> set (migrationVersion f). is_digit c) \<and> (rest = [] \<or> \<not> is_digit (hd rest))"
    unfolding migrationVersion_takeWhile by blast
qed

theorem findMigrationFiles_sorted_matches_witness:
  "findMigrationFiles
     (Some [(''20240301_b.sql'', False), (''notes.txt'', False), (''2023_old.sql'', True),
            (''20240101120000_x.sql'', False)]) migrationFileRegexp =
     Inr [''20240101120000_x.sql'', ''20240301_b.sql''] \<and>
   migrationVersion ''20240101120000_x.sql'' = ''20240101120000''"
proof -
  have files: "findMigrationFiles
     (Some [(''20240301_b.sql'', False), (''notes.txt'', False), (''2023_old.sql'', True),
            (''20240101120000_x.sql'', False)]) migrationFileRegexp =
     Inr [''20240101120000_x.sql'', ''20240301_b.sql'']"
    by code_simp
  have "takeWhile is_digit ''20240101120000_x.sql'' = ''20240101120000''"
    by code_simp
  with files show ?thesis
    using findMigrationFiles_sorted_matches [of migrationFileRegexp "[]" "[]" "''20240101120000_x.sql''"]
    by simp
qed

section \<open>Properties of the parser\<close>

subsection \<open>The matches of the directive expression\<close>

lemma dashes_migrate_length: "dashes_migrate s = Some r \<Longrightarrow> length r + 10 \<le> length s"
proof -
  assume a: "dashes_migrate s = Some r"
  then obtain r0 where r0: "strip_prefix ''--'' s = Some r0"
    and r: "strip_prefix ''migrate:'' (dropWhile is_space r0) = Some r"
    by (auto simp: dashes_migrate_def split: option.splits)
  from r0 have "length s = length r0 + 2"
    by (simp add: strip_prefix_Some)
  moreover from r have "length (dropWhile is_space r0) = length r + 8"
    by (simp add: strip_prefix_Some)
  moreover have "length (dropWhile is_space r0) \<le> length r0"
    by (rule length_dropWhile_le)
  ultimately show ?thesis by simp
qed

lemma up_or_down_length: "up_or_down r = Some r1 \<Longrightarrow> length r1 < length r"
  by (auto simp: up_or_down_def strip_prefix_Some split: option.splits)

lemma strip_prefix_length: "strip_prefix p s = Some r \<Longrightarrow> length r \<le> length s"
  by (simp add: strip_prefix_Some)

lemma block_start_match_bounds:
  assumes "block_start_match s = Some n"
  shows "0 < n \<and> n \<le> length s"
proof -
  from assms obtain r r1 where r: "dashes_migrate s = Some r" and r1: "up_or_down r = Some r1"
    by (auto simp: block_start_match_def split: option.splits)
  have len1: "length r1 < length s"
    using dashes_migrate_length [OF r] up_or_down_length [OF r1] by simp
  show ?thesis
  proof (cases "strip_prefix '':slave'' r1")
    case None
    with assms r r1 have "space_or_newline r1" and "n = length s - length r1 + 1"
      by (auto simp: block_start_match_def split: if_splits)
    with len1 show ?thesis by (cases r1) (simp_all add: space_or_newline_def)
  next
    case (Some r2)
    have len2: "length r2 < length s"
      using strip_prefix_length [OF Some] len1 by simp
    from assms r r1 Some consider
        "space_or_newline r2" "n = length s - length r2 + 1"
      | "space_or_newline r1" "n = length s - length r1 + 1"
      by (auto simp: block_start_match_def split: if_splits)
    then show ?thesis
    proof cases
      case 1
      with len2 show ?thesis by (cases r2) (simp_all add: space_or_newline_def)
    next
      case 2
      with len1 show ?thesis by (cases r1) (simp_all add: space_or_newline_def)
    qed
  qed
qed

lemma chained_mono: "chained lo xs \<Longrightarrow> lo' \<le> lo \<Longrightarrow> chained lo' xs"
  by (cases xs) auto

lemma find_block_starts_chained: "chained (i + skip) (find_block_starts bol skip i cs)"
proof (induction cs arbitrary: bol skip i)
  case Nil
  show ?case by simp
next
  case (Cons c cs)
  show ?case
  proof (cases "skip = 0 \<and> bol")
    case True
    show ?thesis
    proof (cases "block_start_match (c # cs)")
      case None
      have "chained (Suc i + 0) (find_block_starts (c = nl) 0 (Suc i) cs)"
        by (rule Cons.IH)
      then have "chained (i + skip) (find_block_starts (c = nl) 0 (Suc i) cs)"
        by (rule chained_mono) (simp add: True)
      with True None show ?thesis by simp
    next
      case (Some n)
      then have n: "0 < n" using block_start_match_bounds by blast
      have "chained (Suc i + (n - 1)) (find_block_starts (c = nl) (n - 1) (Suc i) cs)"
        by (rule Cons.IH)
      with n have "chained (i + n) (find_block_starts (c = nl) (n - 1) (Suc i) cs)"
        by simp
      with True Some n show ?thesis by simp
    qed
  next
    case False
    have "chained (Suc i + (skip - 1)) (find_block_starts (c = nl) (skip - 1) (Suc i) cs)"
      by (rule Cons.IH)
    then have "chained (i + skip) (find_block_starts (c = nl) (skip - 1) (Suc i) cs)"
      by (rule chained_mono) simp
    with False show ?thesis by auto
  qed
qed

lemma find_block_starts_upper:
  "(a, b) \<in> set (find_block_starts bol skip i cs) \<Longrightarrow> b \<le> i + length cs"
proof (induction cs arbitrary: bol skip i)
  case Nil
  then show ?case by simp
next
  case (Cons c cs)
  show ?case
  proof (cases "skip = 0 \<and> bol")
    case True
    show ?thesis
    proof (cases "block_start_match (c # cs)")
      case None
      with True Cons.prems have "(a, b) \<in> set (find_block_starts (c = nl) 0 (Suc i) cs)"
        by simp
      from Cons.IH [OF this] show ?thesis by simp
    next
      case (Some n)
      then have n: "n \<le> length (c # cs)" using block_start_match_bounds by blast
      from True Some Cons.prems consider "a = i" "b = i + n"
        | "(a, b) \<in> set (find_block_starts (c = nl) (n - 1) (Suc i) cs)"
        by auto
      then show ?thesis
      proof cases
        case 1
        with n show ?thesis by simp
      next
        case 2
        from Cons.IH [OF this] show ?thesis by simp
      qed
    qed
  next
    case False
    with Cons.prems have "(a, b) \<in> set (find_block_starts (c = nl) (skip - 1) (Suc i) cs)"
      by auto
    from Cons.IH [OF this] show ?thesis by simp
  qed
qed

lemma find_block_starts_line_start:
  "(a, b) \<in> set (find_block_starts bol skip i cs) \<Longrightarrow> length pre = i \<Longrightarrow>
   (a = i \<and> bol) \<or> (i < a \<and> (pre @ cs) ! (a - 1) = nl)"
proof (induction cs arbitrary: bol skip i pre)
  case Nil
  then show ?case by simp
next
  case (Cons c cs)
  have step: "i < a \<and> (pre @ c # cs) ! (a - 1) = nl"
    if "(a, b) \<in> set (find_block_starts (c = nl) k (Suc i) cs)" for k
  proof -
    have "length (pre @ [c]) = Suc i" using Cons.prems(2) by simp
    from Cons.IH [OF that this]
    have "(a = Suc i \<and> c = nl) \<or> (Suc i < a \<and> ((pre @ [c]) @ cs) ! (a - 1) = nl)" .
    then show ?thesis
    proof
      assume "a = Suc i \<and> c = nl"
      with Cons.prems(2) show ?thesis by (simp add: nth_append)
    next
      assume "Suc i < a \<and> ((pre @ [c]) @ cs) ! (a - 1) = nl"
      then show ?thesis by simp
    qed
  qed
  show ?case
  proof (cases "skip = 0 \<and> bol")
    case True
    show ?thesis
    proof (cases "block_start_match (c # cs)")
      case None
      with True Cons.prems(1) have "(a, b) \<in> set (find_block_starts (c = nl) 0 (Suc i) cs)"
        by simp
      from step [OF this] show ?thesis by simp
    next
      case (Some n)
      from True Some Cons.prems(1) consider "a = i"
        | "(a, b) \<in> set (find_block_starts (c = nl) (n - 1) (Suc i) cs)"
        by auto
      then show ?thesis
      proof cases
        case 1
        with True show ?thesis by simp
      next
        case 2
        from step [OF this] show ?thesis by simp
      qed
    qed
  next
    case False
    with Cons.prems(1) have "(a, b) \<in> set (find_block_starts (c = nl) (skip - 1) (Suc i) cs)"
      by auto
    from step [OF this] show ?thesis by simp
  qed
qed

lemma reFinds_chained: "chained 0 (reFinds contents)"
  using find_block_starts_chained [of 0 0 True contents] by (simp add: reFinds_def)

lemma reFinds_upper: "(a, b) \<in> set (reFinds contents) \<Longrightarrow> b \<le> length contents"
  using find_block_starts_upper [of a b True 0 0 contents] by (simp add: reFinds_def)

lemma reFinds_line_start:
  "(a, b) \<in> set (reFinds contents) \<Longrightarrow> 0 < a \<Longrightarrow> contents ! (a - 1) = nl"
  using find_block_starts_line_start [of a b True 0 0 contents "[]"] by (simp add: reFinds_def)
subsection \<open>The ranges of the blocks\<close>

lemma length_ranges: "length (ranges n finds) = length finds"
  by (induction n finds rule: ranges.induct) simp_all

lemma ranges_snoc: "ranges n (finds @ [f]) = append_block n (ranges n finds) f"
proof (induction n finds rule: ranges.induct)
  case (1 n)
  show ?case by (cases f) (simp add: append_block_def)
next
  case (2 n a b)
  show ?case by (cases f) (simp add: append_block_def)
next
  case (3 n a b a' b' rest)
  let ?R = "ranges n ((a', b') # rest)"
  have len: "0 < length ?R" by (simp add: length_ranges)
  have "ranges n (((a, b) # (a', b') # rest) @ [f]) = (int a, int a' - 1) # append_block n ?R f"
    using 3 by simp
  also have "\<dots> = append_block n ((int a, int a' - 1) # ?R) f"
    using len by (cases "length ?R") (simp_all add: append_block_def Let_def)
  finally show ?case by simp
qed

lemma foldl_append_block: "foldl (append_block n) [] finds = ranges n finds"
  by (induction finds rule: rev_induct) (simp_all add: ranges_snoc)

lemma find_blocks_ranges: "find_blocks contents = ranges (length contents) (reFinds contents)"
  by (simp add: find_blocks_def foldl_append_block)

lemma firstBlockCharacter_hd:
  "firstBlockCharacter contents =
     (case reFinds contents of [] \<Rightarrow> - 1 | f # fs \<Rightarrow> int (fst f))"
proof -
  have keep: "0 \<le> x \<Longrightarrow> foldl (\<lambda>first reFind. if first < 0 then int (fst reFind) else first) x fs = x"
    for x :: int and fs :: "(nat \<times> nat) list"
    by (induction fs) simp_all
  show ?thesis
    by (cases "reFinds contents") (simp_all add: firstBlockCharacter_def keep)
qed

lemma substring_ranges:
  "chained lo finds \<Longrightarrow> \<forall>(a, b) \<in> set finds. b \<le> length c \<Longrightarrow>
   map (\<lambda>b. substring c (fst b) (snd b)) (ranges (length c) finds) = map Inr (pieces c finds)"
proof (induction c finds arbitrary: lo rule: pieces.induct)
  case (1 c)
  show ?case by simp
next
  case (2 c a b)
  then have "a \<le> length c" by simp
  then show ?case by (simp add: substring_def go_slice_def)
next
  case (3 c a b a' b' rest)
  from "3.prems" have ord: "a < b" "b \<le> a'" "a' < b'" "b' \<le> length c"
    and ch: "chained b ((a', b') # rest)"
    by auto
  have "substring c (int a) (int a' - 1) = Inr (take (a' - 1 - a) (drop a c))"
  proof -
    have "nat (int a' - 1 - int a) = a' - 1 - a" by simp
    moreover have "int a' - 1 \<noteq> - 1" using ord by simp
    moreover have "int a \<le> int a' - 1" "int a' - 1 \<le> int (length c)" using ord by simp_all
    ultimately show ?thesis by (simp add: substring_def go_slice_def)
  qed
  moreover have "map (\<lambda>b. substring c (fst b) (snd b)) (ranges (length c) ((a', b') # rest)) =
      map Inr (pieces c ((a', b') # rest))"
    using "3.IH" [OF ch] "3.prems"(2) by simp
  ultimately show ?case by simp
qed

lemma Join_pieces:
  "chained lo ((a, b) # finds) \<Longrightarrow> \<forall>(a, b) \<in> set ((a, b) # finds). b \<le> length c \<Longrightarrow>
   \<forall>(a, b) \<in> set finds. c ! (a - 1) = nl \<Longrightarrow>
   Join (pieces c ((a, b) # finds)) [nl] = drop a c"
proof (induction finds arbitrary: lo a b)
  case Nil
  show ?case by simp
next
  case (Cons f finds)
  obtain a' b' where f: "f = (a', b')" by (cases f)
  from Cons.prems f have ord: "a < b" "b \<le> a'" "a' < b'" "b' \<le> length c"
    and ch: "chained b ((a', b') # finds)" and nl: "c ! (a' - 1) = nl"
    by auto
  have rest: "Join (pieces c ((a', b') # finds)) [nl] = drop a' c"
    using Cons.IH [OF ch] Cons.prems f by simp
  obtain k where k: "a' = Suc k" "a \<le> k" "k < length c"
    using ord by (cases a') auto
  have "drop a c = take (k - a) (drop a c) @ drop (k - a) (drop a c)"
    by (rule append_take_drop_id [symmetric])
  also have "drop (k - a) (drop a c) = drop k c"
    using k by simp
  also have "drop k c = c ! k # drop (Suc k) c"
    using k by (simp add: Cons_nth_drop_Suc)
  finally have "drop a c = take (a' - 1 - a) (drop a c) @ [nl] @ drop a' c"
    using nl k by simp
  moreover have "pieces c ((a', b') # finds) \<noteq> []"
    by (cases finds) auto
  ultimately show ?case
    using rest f by (cases "pieces c ((a', b') # finds)") auto
qed
subsection \<open>The second loop and the check of the prefix\<close>

lemma fill_slot_Inr:
  "fill_slot re s m = Inr m' \<Longrightarrow> Contents m' = Contents m \<or> Contents m' = s"
  by (auto simp: fill_slot_def split: if_splits)

lemma fill_slot_Inl: "fill_slot re s m = Inl e \<Longrightarrow> e = ErrParseDuplicateBlock"
  by (auto simp: fill_slot_def split: if_splits)

lemma classify_block_Inr:
  assumes "classify_block s (u, d, us, ds) = Inr (u', d', us', ds')"
  shows "Contents u' \<in> {Contents u, s} \<and> Contents d' \<in> {Contents d, s} \<and>
         Contents us' \<in> {Contents us, s} \<and> Contents ds' \<in> {Contents ds, s}"
proof -
  from assms have "fill_slot upRegExp s u = Inr u'" "fill_slot downRegExp s d = Inr d'"
    "fill_slot upSlaveRegExp s us = Inr us'" "fill_slot downSlaveRegExp s ds = Inr ds'"
    by (auto simp: classify_block_def split: sum.splits)
  then show ?thesis
    using fill_slot_Inr by blast
qed

lemma classify_block_Inl: "classify_block s ms = Inl e \<Longrightarrow> e = ErrParseDuplicateBlock"
  by (auto simp: classify_block_def split: sum.splits prod.splits dest: fill_slot_Inl)

lemma classify_blocks_Inr:
  "classify_blocks c bs (u, d, us, ds) = Inr (u', d', us', ds') \<Longrightarrow>
   map (\<lambda>b. substring c (fst b) (snd b)) bs = map Inr texts \<Longrightarrow>
   Contents u' \<in> insert (Contents u) (set texts) \<and>
   Contents d' \<in> insert (Contents d) (set texts) \<and>
   Contents us' \<in> insert (Contents us) (set texts) \<and>
   Contents ds' \<in> insert (Contents ds) (set texts)"
proof (induction bs arbitrary: u d us ds texts)
  case Nil
  then show ?case by simp
next
  case (Cons b bs)
  from Cons.prems(2) obtain s rest where texts: "texts = s # rest"
    and s: "substring c (fst b) (snd b) = Inr s"
    and rest: "map (\<lambda>b. substring c (fst b) (snd b)) bs = map Inr rest"
    by (cases texts) auto
  from Cons.prems(1) s obtain u1 d1 us1 ds1
    where one: "classify_block s (u, d, us, ds) = Inr (u1, d1, us1, ds1)"
      and more: "classify_blocks c bs (u1, d1, us1, ds1) = Inr (u', d', us', ds')"
    by (auto split: sum.splits)
  from classify_block_Inr [OF one] Cons.IH [OF more rest] texts
  show ?case by auto
qed

lemma classify_blocks_Inl:
  "classify_blocks c bs ms = Inl e \<Longrightarrow>
   map (\<lambda>b. substring c (fst b) (snd b)) bs = map Inr texts \<Longrightarrow> e = ErrParseDuplicateBlock"
proof (induction bs arbitrary: ms texts)
  case Nil
  then show ?case by simp
next
  case (Cons b bs)
  from Cons.prems(2) obtain s rest where s: "substring c (fst b) (snd b) = Inr s"
    and rest: "map (\<lambda>b. substring c (fst b) (snd b)) bs = map Inr rest"
    by (cases texts) auto
  show ?case
  proof (cases "classify_block s ms")
    case (Inl e')
    with Cons.prems(1) s have "e = e'" by simp
    with Inl show ?thesis by (simp add: classify_block_Inl)
  next
    case (Inr ms1)
    with Cons.prems(1) s have "classify_blocks c bs ms1 = Inl e" by simp
    from Cons.IH [OF this rest] show ?thesis .
  qed
qed

lemma lines_have_statement_iff:
  "lines_have_statement lines = (\<exists>line \<in> set lines. \<not> isEmptyLine line \<and> \<not> isCommentLine line)"
  by (induction lines) auto

lemma block_texts_pieces:
  "block_texts contents = map Inr (pieces contents (reFinds contents))"
  unfolding block_texts_def find_blocks_ranges
  using substring_ranges [OF reFinds_chained] reFinds_upper by blast

lemma statementsPrecede_first:
  assumes "reFinds contents = (a, b) # finds"
  shows "statementsPrecedeMigrateBlocks contents (firstBlockCharacter contents) =
         Inr (lines_have_statement (split_on nl (take a contents)))"
proof -
  have "a < b" "b \<le> length contents"
    using reFinds_chained [of contents] reFinds_upper [of a b contents] assms by simp_all
  then show ?thesis
    using assms by (simp add: statementsPrecedeMigrateBlocks_def firstBlockCharacter_hd go_slice_def)
qed

lemma chained_lower: "chained lo xs \<Longrightarrow> (a, b) \<in> set xs \<Longrightarrow> lo \<le> a"
proof (induction xs arbitrary: lo)
  case Nil
  then show ?case by simp
next
  case (Cons x xs)
  obtain a0 b0 where x: "x = (a0, b0)" by (cases x)
  show ?case
  proof (cases "(a, b) = x")
    case True
    with Cons.prems x show ?thesis by simp
  next
    case False
    with Cons.prems x have "chained b0 xs" "(a, b) \<in> set xs" "lo \<le> a0" "a0 < b0" by auto
    with Cons.IH [of b0] show ?thesis by simp
  qed
qed

lemma Join_pieces_reFinds:
  assumes "reFinds contents = (a, b) # finds"
  shows "Join (pieces contents (reFinds contents)) [nl] = drop a contents"
proof -
  have ch: "chained 0 ((a, b) # finds)"
    using reFinds_chained [of contents] assms by simp
  have up: "\<forall>(a, b) \<in> set ((a, b) # finds). b \<le> length contents"
    using reFinds_upper [of _ _ contents] assms by auto
  have "0 < a'" if "(a', b') \<in> set finds" for a' b'
  proof -
    from ch have "a < b" "chained b finds" by simp_all
    with chained_lower [OF _ that] show ?thesis by fastforce
  qed
  then have "\<forall>(a, b) \<in> set finds. contents ! (a - 1) = nl"
    using reFinds_line_start [of _ _ contents] assms by auto
  from Join_pieces [OF ch up this] assms show ?thesis by simp
qed

text \<open>
  C5, as the code has it. In a file the parser accepts, every block runs from the start of
  its directive to the start of the next directive minus one, and the slice of that range
  leaves out its upper bound: the newline before the next directive belongs to no block. The
  last block runs to the end of the file. The text before the first directive, followed by
  the texts of the blocks joined with one newline between them, is the whole file; every
  line of the text before the first directive is empty or a comment; and the contents the
  parser returns are texts of blocks (or empty, for a kind that is absent).
\<close>

theorem parsed_blocks_cover_contents:
  assumes "parseMigrationContents contents = Inr (up, down, upSlave, downSlave)"
  shows "\<exists>texts.
     block_texts contents = map Inr texts \<and> texts \<noteq> [] \<and>
     find_blocks contents = ranges (length contents) (reFinds contents) \<and>
     contents = take (nat (firstBlockCharacter contents)) contents @ Join texts [nl] \<and>
     (\<forall>line \<in> set (split_on nl (take (nat (firstBlockCharacter contents)) contents)).
        isEmptyLine line \<or> isCommentLine line) \<and>
     Contents up \<in> set texts \<and> Contents down \<in> set ([] # texts) \<and>
     Contents upSlave \<in> set ([] # texts) \<and> Contents downSlave \<in> set ([] # texts)"
proof -
  from assms have nonempty: "find_blocks contents \<noteq> []"
    by (auto simp: parseMigrationContents_def Let_def split: if_splits)
  then obtain a b finds where finds: "reFinds contents = (a, b) # finds"
    by (cases "reFinds contents") (auto simp: find_blocks_ranges)
  let ?texts = "pieces contents (reFinds contents)"
  have texts: "block_texts contents = map Inr ?texts"
    by (rule block_texts_pieces)
  have first: "nat (firstBlockCharacter contents) = a"
    using finds by (simp add: firstBlockCharacter_hd)
  from assms nonempty
  have cls: "classify_blocks contents (find_blocks contents)
        (NewMigration, NewMigration, NewMigration, NewMigration) = Inr (up, down, upSlave, downSlave)"
    and up: "Contents up \<noteq> []"
    and pre: "statementsPrecedeMigrateBlocks contents (firstBlockCharacter contents) = Inr False"
    by (auto simp: parseMigrationContents_def Let_def split: if_splits sum.splits bool.splits)
  from classify_blocks_Inr [OF cls texts [unfolded block_texts_def]] up
  have slots: "Contents up \<in> set ?texts" "Contents down \<in> set ([] # ?texts)"
    "Contents upSlave \<in> set ([] # ?texts)" "Contents downSlave \<in> set ([] # ?texts)"
    by (auto simp: NewMigration_def)
  have "\<not> lines_have_statement (split_on nl (take a contents))"
    using pre statementsPrecede_first [OF finds] by simp
  then have lines: "\<forall>line \<in> set (split_on nl (take a contents)). isEmptyLine line \<or> isCommentLine line"
    by (auto simp: lines_have_statement_iff)
  have "contents = take a contents @ drop a contents" by simp
  then have cover: "contents = take a contents @ Join ?texts [nl]"
    using Join_pieces_reFinds [OF finds] by simp
  have "?texts \<noteq> []" using finds by (cases finds) auto
  with texts cover lines slots first show ?thesis
    using find_blocks_ranges [of contents] by auto
qed

subsection \<open>The order of the checks\<close>

lemma kind_expressions_nonempty:
  "\<not> upRegExp []" "\<not> downRegExp []" "\<not> upSlaveRegExp []" "\<not> downSlaveRegExp []"
  by code_simp+

lemma fill_slot_filled_Inr:
  "\<not> re [] \<Longrightarrow> fill_slot re s m = Inr m' \<Longrightarrow> filled m' = filled m + length (filter re [s])"
  by (auto simp: fill_slot_def filled_def split: if_splits)

lemma fill_slot_filled_Inl:
  "fill_slot re s m = Inl e \<Longrightarrow> 1 < filled m + length (filter re [s])"
  by (auto simp: fill_slot_def filled_def split: if_splits)

lemma classify_block_filled_Inr:
  assumes "classify_block s (u, d, us, ds) = Inr (u', d', us', ds')"
  shows "filled u' = filled u + length (filter upRegExp [s]) \<and>
         filled d' = filled d + length (filter downRegExp [s]) \<and>
         filled us' = filled us + length (filter upSlaveRegExp [s]) \<and>
         filled ds' = filled ds + length (filter downSlaveRegExp [s])"
proof -
  from assms have "fill_slot upRegExp s u = Inr u'" "fill_slot downRegExp s d = Inr d'"
    "fill_slot upSlaveRegExp s us = Inr us'" "fill_slot downSlaveRegExp s ds = Inr ds'"
    by (auto simp: classify_block_def split: sum.splits)
  then show ?thesis
    using fill_slot_filled_Inr kind_expressions_nonempty by blast
qed

lemma classify_block_filled_Inl:
  assumes "classify_block s (u, d, us, ds) = Inl e"
  shows "1 < filled u + length (filter upRegExp [s]) \<or>
         1 < filled d + length (filter downRegExp [s]) \<or>
         1 < filled us + length (filter upSlaveRegExp [s]) \<or>
         1 < filled ds + length (filter downSlaveRegExp [s])"
proof -
  from assms have "(\<exists>e. fill_slot upRegExp s u = Inl e) \<or> (\<exists>e. fill_slot downRegExp s d = Inl e) \<or>
    (\<exists>e. fill_slot upSlaveRegExp s us = Inl e) \<or> (\<exists>e. fill_slot downSlaveRegExp s ds = Inl e)"
    by (auto simp: classify_block_def split: sum.splits)
  then show ?thesis
    using fill_slot_filled_Inl by blast
qed

lemma length_filter_Cons: "length (filter P (x # xs)) = length (filter P [x]) + length (filter P xs)"
  by simp

lemma classify_blocks_filled:
  assumes "map (\<lambda>b. substring c (fst b) (snd b)) bs = map Inr texts"
  shows "case classify_blocks c bs (u, d, us, ds) of
           Inl e \<Rightarrow>
             1 < filled u + length (filter upRegExp texts) \<or>
             1 < filled d + length (filter downRegExp texts) \<or>
             1 < filled us + length (filter upSlaveRegExp texts) \<or>
             1 < filled ds + length (filter downSlaveRegExp texts)
         | Inr (u', d', us', ds') \<Rightarrow>
             filled u' = filled u + length (filter upRegExp texts) \<and>
             filled d' = filled d + length (filter downRegExp texts) \<and>
             filled us' = filled us + length (filter upSlaveRegExp texts) \<and>
             filled ds' = filled ds + length (filter downSlaveRegExp texts)"
  using assms
proof (induction bs arbitrary: u d us ds texts)
  case Nil
  then show ?case by simp
next
  case (Cons b bs)
  from Cons.prems obtain s rest where texts: "texts = s # rest"
    and s: "substring c (fst b) (snd b) = Inr s"
    and rest: "map (\<lambda>b. substring c (fst b) (snd b)) bs = map Inr rest"
    by (cases texts) auto
  show ?case
  proof (cases "classify_block s (u, d, us, ds)")
    case (Inl e)
    from classify_block_filled_Inl [OF Inl] have
      "1 < filled u + length (filter upRegExp texts) \<or>
       1 < filled d + length (filter downRegExp texts) \<or>
       1 < filled us + length (filter upSlaveRegExp texts) \<or>
       1 < filled ds + length (filter downSlaveRegExp texts)"
      unfolding texts length_filter_Cons [of _ s rest] by linarith
    with Inl s show ?thesis by simp
  next
    case (Inr ms)
    obtain u1 d1 us1 ds1 where ms: "ms = (u1, d1, us1, ds1)" by (cases ms)
    note one = classify_block_filled_Inr [OF Inr [unfolded ms]]
    note ih = Cons.IH [OF rest, of u1 d1 us1 ds1]
    have eq: "classify_blocks c (b # bs) (u, d, us, ds) = classify_blocks c bs (u1, d1, us1, ds1)"
      using s Inr ms by simp
    show ?thesis
    proof (cases "classify_blocks c bs (u1, d1, us1, ds1)")
      case (Inl e)
      with ih have
        "1 < filled u1 + length (filter upRegExp rest) \<or>
         1 < filled d1 + length (filter downRegExp rest) \<or>
         1 < filled us1 + length (filter upSlaveRegExp rest) \<or>
         1 < filled ds1 + length (filter downSlaveRegExp rest)"
        by (simp del: One_nat_def)
      with one have
        "1 < filled u + length (filter upRegExp texts) \<or>
         1 < filled d + length (filter downRegExp texts) \<or>
         1 < filled us + length (filter upSlaveRegExp texts) \<or>
         1 < filled ds + length (filter downSlaveRegExp texts)"
        unfolding texts length_filter_Cons [of _ s rest] by linarith
      with Inl show ?thesis
        unfolding eq by simp
    next
      case res: (Inr ms')
      obtain u2 d2 us2 ds2 where ms': "ms' = (u2, d2, us2, ds2)" by (cases ms')
      with ih res have
        "filled u2 = filled u1 + length (filter upRegExp rest) \<and>
         filled d2 = filled d1 + length (filter downRegExp rest) \<and>
         filled us2 = filled us1 + length (filter upSlaveRegExp rest) \<and>
         filled ds2 = filled ds1 + length (filter downSlaveRegExp rest)"
        by simp
      with one have
        "filled u2 = filled u + length (filter upRegExp texts) \<and>
         filled d2 = filled d + length (filter downRegExp texts) \<and>
         filled us2 = filled us + length (filter upSlaveRegExp texts) \<and>
         filled ds2 = filled ds + length (filter downSlaveRegExp texts)"
        unfolding texts length_filter_Cons [of _ s rest] by linarith
      with res ms' show ?thesis
        unfolding eq by simp
    qed
  qed
qed

lemma filled_le: "filled m \<le> 1"
  by (simp add: filled_def)

lemma classify_blocks_duplicates:
  assumes "block_texts contents = map Inr texts"
  shows "case classify_blocks contents (find_blocks contents)
                (NewMigration, NewMigration, NewMigration, NewMigration) of
           Inl e \<Rightarrow> e = ErrParseDuplicateBlock \<and> duplicates_kind texts
         | Inr (up, down, upSlave, downSlave) \<Rightarrow>
             \<not> duplicates_kind texts \<and> (Contents up = []) = (\<not> list_ex upRegExp texts)"
proof (cases "classify_blocks contents (find_blocks contents)
                (NewMigration, NewMigration, NewMigration, NewMigration)")
  case (Inl e)
  then have "e = ErrParseDuplicateBlock"
    using classify_blocks_Inl assms [unfolded block_texts_def] by blast
  moreover have "duplicates_kind texts"
    using classify_blocks_filled [OF assms [unfolded block_texts_def], of NewMigration NewMigration
        NewMigration NewMigration] Inl
    by (auto simp: duplicates_kind_def kind_expressions_def filled_def NewMigration_def)
  ultimately show ?thesis using Inl by simp
next
  case (Inr ms)
  obtain up down upSlave downSlave where ms: "ms = (up, down, upSlave, downSlave)"
    by (cases ms)
  from classify_blocks_filled [OF assms [unfolded block_texts_def], of NewMigration NewMigration
        NewMigration NewMigration] Inr ms
  have counts: "filled up = length (filter upRegExp texts)"
    "filled down = length (filter downRegExp texts)"
    "filled upSlave = length (filter upSlaveRegExp texts)"
    "filled downSlave = length (filter downSlaveRegExp texts)"
    by (simp_all add: filled_def NewMigration_def)
  have "\<not> duplicates_kind texts"
    using counts filled_le [of up] filled_le [of down] filled_le [of upSlave] filled_le [of downSlave]
    by (simp add: duplicates_kind_def kind_expressions_def)
  moreover have "(Contents up = []) = (\<not> list_ex upRegExp texts)"
  proof -
    have "(Contents up = []) = (filter upRegExp texts = [])"
      using counts(1) by (auto simp: filled_def split: if_splits)
    then show ?thesis
      by (simp add: filter_empty_conv list_ex_iff)
  qed
  ultimately show ?thesis using Inr ms by simp
qed

text \<open>
  C6, as the code has it. When a line that is neither empty nor a comment stands before the
  first directive, the parser returns an error and no result. The duplicate of a kind and the
  missing up block are checked first. With \<open>texts\<close> the texts of the blocks: the error is
  \<open>ErrParseDuplicateBlock\<close> when one of the four expressions of a kind matches two of the
  texts, which is when the second loop ends with an error; else \<open>ErrParseMissingUp\<close> when
  the expression of the up block matches none of them, which is when the second loop leaves
  the up block empty; else \<open>ErrParseUnexpectedStmt\<close>. So the error is
  \<open>ErrParseUnexpectedStmt\<close> exactly when the second loop ends without a duplicate and with
  an up block.
\<close>

theorem statements_before_first_block_rejected:
  assumes "reFinds contents = (a, b) # finds"
    and "\<exists>line \<in> set (split_on nl (take a contents)). \<not> isEmptyLine line \<and> \<not> isCommentLine line"
  shows "(\<exists>texts. block_texts contents = map Inr texts \<and>
           parseMigrationContents contents =
             Inl (if duplicates_kind texts then ErrParseDuplicateBlock
                  else if \<not> list_ex upRegExp texts then ErrParseMissingUp
                  else ErrParseUnexpectedStmt) \<and>
           (\<forall>e. classify_blocks contents (find_blocks contents)
                  (NewMigration, NewMigration, NewMigration, NewMigration) = Inl e \<longrightarrow>
                duplicates_kind texts \<and>
                parseMigrationContents contents = Inl ErrParseDuplicateBlock) \<and>
           (\<forall>up down upSlave downSlave.
              classify_blocks contents (find_blocks contents)
                (NewMigration, NewMigration, NewMigration, NewMigration) =
                Inr (up, down, upSlave, downSlave) \<longrightarrow>
              \<not> duplicates_kind texts \<and> (Contents up = []) = (\<not> list_ex upRegExp texts) \<and>
              parseMigrationContents contents =
                Inl (if Contents up = [] then ErrParseMissingUp else ErrParseUnexpectedStmt))) \<and>
         ((parseMigrationContents contents = Inl ErrParseUnexpectedStmt) =
            (\<exists>up down upSlave downSlave.
               classify_blocks contents (find_blocks contents)
                 (NewMigration, NewMigration, NewMigration, NewMigration) =
                 Inr (up, down, upSlave, downSlave) \<and> Contents up \<noteq> []))"
    (is "?errors \<and> ?exactly")
proof -
  let ?texts = "pieces contents (reFinds contents)"
  have texts: "block_texts contents = map Inr ?texts"
    by (rule block_texts_pieces)
  have nonempty: "find_blocks contents \<noteq> []"
    using assms(1) by (cases finds) (auto simp: find_blocks_ranges)
  have pre: "statementsPrecedeMigrateBlocks contents (firstBlockCharacter contents) = Inr True"
    using statementsPrecede_first [OF assms(1)] assms(2) by (simp add: lines_have_statement_iff)
  note kinds = classify_blocks_duplicates [OF texts]
  have dup: ?errors if "classify_blocks contents (find_blocks contents)
                (NewMigration, NewMigration, NewMigration, NewMigration) = Inl e" for e
  proof -
    from kinds that have "e = ErrParseDuplicateBlock" "duplicates_kind ?texts" by simp_all
    moreover from that nonempty have "parseMigrationContents contents = Inl e"
      by (simp add: parseMigrationContents_def)
    ultimately show ?errors using texts that
      by (intro exI [of _ ?texts]) simp
  qed
  have nodup: ?errors if "classify_blocks contents (find_blocks contents)
                (NewMigration, NewMigration, NewMigration, NewMigration) =
                Inr (up, down, upSlave, downSlave)" for up down upSlave downSlave
  proof -
    from kinds that have k: "\<not> duplicates_kind ?texts"
      "(Contents up = []) = (\<not> list_ex upRegExp ?texts)" by simp_all
    from that nonempty pre have "parseMigrationContents contents =
        Inl (if Contents up = [] then ErrParseMissingUp else ErrParseUnexpectedStmt)"
      by (simp add: parseMigrationContents_def)
    with k texts that show ?errors
      by (intro exI [of _ ?texts]) simp
  qed
  have errors: ?errors
  proof (cases "classify_blocks contents (find_blocks contents)
                (NewMigration, NewMigration, NewMigration, NewMigration)")
    case (Inl e)
    then show ?thesis by (rule dup)
  next
    case (Inr ms)
    obtain up down upSlave downSlave where "ms = (up, down, upSlave, downSlave)"
      by (cases ms)
    with Inr have "classify_blocks contents (find_blocks contents)
        (NewMigration, NewMigration, NewMigration, NewMigration) = Inr (up, down, upSlave, downSlave)"
      by simp
    then show ?thesis by (rule nodup)
  qed
  have exactly: ?exactly
  proof (cases "classify_blocks contents (find_blocks contents)
                 (NewMigration, NewMigration, NewMigration, NewMigration)")
    case (Inl e)
    with nonempty kinds show ?thesis
      by (simp add: parseMigrationContents_def)
  next
    case (Inr ms)
    obtain up down upSlave downSlave where ms: "ms = (up, down, upSlave, downSlave)"
      by (cases ms)
    with Inr nonempty pre show ?thesis
      by (simp add: parseMigrationContents_def)
  qed
  from errors exactly show ?thesis ..
qed

subsection \<open>Concrete files\<close>

theorem parsed_blocks_cover_contents_witness:
  "contents_of (parseMigrationContents
      ''\<newline>-- users\<newline>-- migrate:up\<newline>A\<newline>-- migrate:down\<newline>B\<newline>'') =
     Inr (''-- migrate:up\<newline>A'', ''-- migrate:down\<newline>B\<newline>'', [], []) \<and>
   ''\<newline>-- users\<newline>-- migrate:up\<newline>A\<newline>-- migrate:down\<newline>B\<newline>'' =
     ''\<newline>-- users\<newline>'' @ Join [''-- migrate:up\<newline>A'', ''-- migrate:down\<newline>B\<newline>''] [nl]"
proof -
  let ?c = "''\<newline>-- users\<newline>-- migrate:up\<newline>A\<newline>-- migrate:down\<newline>B\<newline>''"
  have res: "contents_of (parseMigrationContents ?c) =
     Inr (''-- migrate:up\<newline>A'', ''-- migrate:down\<newline>B\<newline>'', [], [])"
    by code_simp
  then obtain up down upSlave downSlave
    where parsed: "parseMigrationContents ?c = Inr (up, down, upSlave, downSlave)"
    by (cases "parseMigrationContents ?c") (auto simp: contents_of_def)
  have texts: "block_texts ?c = [Inr ''-- migrate:up\<newline>A'', Inr ''-- migrate:down\<newline>B\<newline>'']"
    by code_simp
  have first: "firstBlockCharacter ?c = 10"
    by code_simp
  from parsed_blocks_cover_contents [OF parsed] obtain ts
    where "block_texts ?c = map Inr ts"
      and "?c = take (nat (firstBlockCharacter ?c)) ?c @ Join ts [nl]"
    by blast
  with texts first have "?c = take 10 ?c @ Join [''-- migrate:up\<newline>A'', ''-- migrate:down\<newline>B\<newline>''] [nl]"
    by (auto simp: map_eq_Cons_conv)
  with res show ?thesis by simp
qed

text \<open>
  The claim C5 as it is written fails: the prefix and the texts of the blocks, one after the
  other, lack the newline before the second directive.
\<close>

theorem blocks_leave_newline_out:
  "contents_of (parseMigrationContents ''-- migrate:up\<newline>A\<newline>-- migrate:down\<newline>B'') =
     Inr (''-- migrate:up\<newline>A'', ''-- migrate:down\<newline>B'', [], []) \<and>
   find_blocks ''-- migrate:up\<newline>A\<newline>-- migrate:down\<newline>B'' = [(0, 15), (16, 33)] \<and>
   covered_text ''-- migrate:up\<newline>A\<newline>-- migrate:down\<newline>B'' =
     ''-- migrate:up\<newline>A-- migrate:down\<newline>B'' \<and>
   covered_text ''-- migrate:up\<newline>A\<newline>-- migrate:down\<newline>B'' \<noteq>
     ''-- migrate:up\<newline>A\<newline>-- migrate:down\<newline>B''"
  by code_simp

theorem statements_before_first_block_rejected_witness:
  "parseMigrationContents ''create type t;\<newline>-- migrate:up\<newline>A\<newline>'' = Inl ErrParseUnexpectedStmt"
proof -
  let ?c = "''create type t;\<newline>-- migrate:up\<newline>A\<newline>''"
  have finds: "reFinds ?c = (15, 29) # []"
    by code_simp
  have "split_on nl (take 15 ?c) = [''create type t;'', []]"
    by code_simp
  moreover have "\<not> isEmptyLine ''create type t;'' \<and> \<not> isCommentLine ''create type t;''"
    by code_simp
  ultimately have line: "\<exists>line \<in> set (split_on nl (take 15 ?c)). \<not> isEmptyLine line \<and> \<not> isCommentLine line"
    by simp
  have "contents_of (classify_blocks ?c (find_blocks ?c)
          (NewMigration, NewMigration, NewMigration, NewMigration)) =
        Inr (''-- migrate:up\<newline>A\<newline>'', [], [], [])"
    by code_simp
  then have "\<exists>up down upSlave downSlave.
      classify_blocks ?c (find_blocks ?c) (NewMigration, NewMigration, NewMigration, NewMigration) =
        Inr (up, down, upSlave, downSlave) \<and> Contents up \<noteq> []"
    by (cases "classify_blocks ?c (find_blocks ?c) (NewMigration, NewMigration, NewMigration, NewMigration)")
       (auto simp: contents_of_def)
  with statements_before_first_block_rejected [OF finds line] show ?thesis
    by blast
qed

lemma contents_of_Inl: "contents_of r = Inl e \<Longrightarrow> r = Inl e"
  by (cases r) (auto simp: contents_of_def)

text \<open>
  The claim C6 as it is written fails: a statement before the first directive of a file
  without an up block gives \<open>ErrParseMissingUp\<close>.
\<close>

theorem statement_before_down_block_is_missing_up:
  "reFinds ''create type t;\<newline>-- migrate:down\<newline>B\<newline>'' = [(15, 31)] \<and>
   split_on nl (take 15 ''create type t;\<newline>-- migrate:down\<newline>B\<newline>'') = [''create type t;'', []] \<and>
   \<not> isEmptyLine ''create type t;'' \<and> \<not> isCommentLine ''create type t;'' \<and>
   parseMigrationContents ''create type t;\<newline>-- migrate:down\<newline>B\<newline>'' = Inl ErrParseMissingUp \<and>
   parseMigrationContents ''create type t;\<newline>-- migrate:down\<newline>B\<newline>'' \<noteq> Inl ErrParseUnexpectedStmt"
proof -
  have "contents_of (parseMigrationContents ''create type t;\<newline>-- migrate:down\<newline>B\<newline>'') =
      Inl ErrParseMissingUp"
    by code_simp
  then have "parseMigrationContents ''create type t;\<newline>-- migrate:down\<newline>B\<newline>'' = Inl ErrParseMissingUp"
    by (rule contents_of_Inl)
  moreover have "reFinds ''create type t;\<newline>-- migrate:down\<newline>B\<newline>'' = [(15, 31)]"
    by code_simp
  moreover have "split_on nl (take 15 ''create type t;\<newline>-- migrate:down\<newline>B\<newline>'') =
      [''create type t;'', []]"
    by code_simp
  moreover have "\<not> isEmptyLine ''create type t;'' \<and> \<not> isCommentLine ''create type t;''"
    by code_simp
  ultimately show ?thesis by simp
qed

section \<open>Concrete runs of the orchestrator\<close>

text \<open>
  C3 on the code. With one replica and calls that all succeed, \<open>Drop\<close> calls \<open>DropDatabase\<close> on
  the primary and then twice on the replica: its list of drivers is the result of
  \<^verbatim>\<open>GetAllDrivers\<close>, which holds the replicas already, with the result of
  \<^verbatim>\<open>GetSlaveDrivers\<close> appended. \<open>Create\<close>, on the same configuration, calls each database once.
\<close>

theorem Drop_drops_each_replica_twice:
  "outcome (Drop mem_registry one_replica (start [] 0)) =
     Some (Inr (),
       [Call Primary DropDatabase Done, Call (Replica 0) DropDatabase Done,
        Call (Replica 0) DropDatabase Done]) \<and>
   outcome (Create mem_registry one_replica (start [] 0)) =
     Some (Inr (), [Call Primary CreateDatabase Done, Call (Replica 0) CreateDatabase Done])"
  by code_simp

text \<open>
  C4 on the code. The first ping fails and the second succeeds; with a timeout of three
  intervals the controller sleeps and pings twice more before it returns. The loop of the
  retries sets its flag on a success and has no exit but its bound.
\<close>

theorem wait_pings_after_success:
  "outcome (Wait mem_registry one_replica (start [] 1)) =
     Some (Inr (),
       [Call Primary Ping (Failed ''connection refused''), Sleep 1, Call Primary Ping Done,
        Sleep 1, Call Primary Ping Done, Sleep 1, Call Primary Ping Done])"
  by code_simp

text \<open>
  C1 on the code. The replica has applied version 1 and the primary has not. \<open>Migrate\<close> runs
  the block for the replicas on the replica and inserts the version there again: the loop
  over the replicas ranges over all drivers, not over the indices it selected.
\<close>

theorem migrate_runs_slave_block_on_applied_replica:
  "outcome (Migrate mem_registry one_replica
      (files_in [(''1_a.sql'', ''-- migrate:up\<newline>U\<newline>-- migrate:up:slave\<newline>S\<newline>'')])
      (start [(''replica'', [''1''])] 0)) =
     Some (Inr (),
       [Call Primary Open Done, Call Primary CreateMigrationsTable Done,
        Call Primary (SelectMigrations (- 1)) (Versions []),
        Call (Replica 0) Open Done, Call (Replica 0) CreateMigrationsTable Done,
        Call (Replica 0) (SelectMigrations (- 1)) (Versions [(''1'', True)]),
        Call (Replica 0) Begin Done,
        Call (Replica 0) (Exec True ''-- migrate:up:slave\<newline>S\<newline>'') Done,
        Call (Replica 0) (InsertMigration True ''1'') Done,
        Call (Replica 0) Commit Done,
        Call Primary Begin Done,
        Call Primary (Exec True ''-- migrate:up\<newline>U'') Done,
        Call Primary (InsertMigration True ''1'') Done,
        Call Primary Commit Done,
        Call (Replica 0) Close Done, Call Primary Close Done])"
  by code_simp

section \<open>Properties of the runs on every driver\<close>

subsection \<open>Traces\<close>

lemma run_refl: "run w [] w"
  by (simp add: run_def)

lemma run_trans: "run w evs w1 \<Longrightarrow> run w1 evs' w2 \<Longrightarrow> run w (evs @ evs') w2"
  by (simp add: run_def)

lemma run_since: "run w evs w' \<Longrightarrow> since w w' = evs"
  by (simp add: run_def since_def)

lemma run_deferred_update [simp]:
  "run (w\<lparr>deferred := d\<rparr>) evs w' = run w evs w'"
  "run w evs (w'\<lparr>deferred := d\<rparr>) = run w evs w'"
  by (simp_all add: run_def)

lemma call_run: "call drv c w = (r, w') \<Longrightarrow> run w [Call (fst drv) c r] w'"
  by (auto simp: call_def run_def split: prod.splits)

lemma call_err_run:
  assumes "call_err drv c w = (res, w')"
  shows "\<exists>r. run w [Call (fst drv) c r] w' \<and> (res = Inr () \<or> (\<exists>msg. res = Inl (External msg)))"
proof -
  obtain r w1 where c: "call drv c w = (r, w1)" by (cases "call drv c w")
  with assms have "w' = w1" "res = Inr () \<or> (\<exists>msg. res = Inl (External msg))"
    by (auto simp: call_err_def split: option.splits)
  with call_run [OF c] show ?thesis by blast
qed

lemma selectMigrations_run:
  assumes "selectMigrations drv limit w = (res, w')"
  shows "\<exists>r. run w [Call (fst drv) (SelectMigrations limit) r] w' \<and>
           (res = Inr (versions_of r) \<or>
            (\<exists>msg. res = Inl (External msg) \<and> versions_of r = []))"
proof -
  obtain r w1 where c: "call drv (SelectMigrations limit) w = (r, w1)"
    by (cases "call drv (SelectMigrations limit) w")
  have "versions_of r = []" if "err_of r = Some msg" for msg
    using that by (cases r) (simp_all add: err_of_def versions_of_def)
  with assms c have "w' = w1"
    "res = Inr (versions_of r) \<or> (\<exists>msg. res = Inl (External msg) \<and> versions_of r = [])"
    by (auto simp: selectMigrations_def split: option.splits)
  with call_run [OF c] show ?thesis by blast
qed

lemma sleep_run: "run w [Sleep d] (sleep d w)"
  by (simp add: sleep_def run_def)

lemma defer_close_run: "run w [] (defer_close drv w)"
  by (simp add: defer_close_def run_def)

lemma quiet_simps [simp]:
  "quiet (Sleep d)" "quiet (EnsureDir x)" "quiet (WriteSchema s y)"
  "quiet (Call t Ping r)" "quiet (Call t Open r)" "quiet (Call t Close r)"
  "quiet (Call t CreateMigrationsTable r)" "quiet (Call t DumpSchema r)"
  "quiet (Call t CreateDatabase r)" "quiet (Call t DropDatabase r)"
  by (simp_all add: quiet_def is_write_def is_select_def)

lemma calls_to_Call [simp]: "calls_to drvs (Call t c r) = (t \<in> fst ` set drvs)"
  by (simp add: calls_to_def)

subsection \<open>Steps that neither write nor read a ledger\<close>

lemma quietly_refl: "quietly w w"
  unfolding quietly_def using run_refl [of w] by fastforce

lemma quietly_trans: "quietly w w1 \<Longrightarrow> quietly w1 w2 \<Longrightarrow> quietly w w2"
proof -
  assume "quietly w w1" and "quietly w1 w2"
  then obtain e1 e2 where "run w e1 w1" "\<forall>ev \<in> set e1. quiet ev"
    and "run w1 e2 w2" "\<forall>ev \<in> set e2. quiet ev"
    by (auto simp: quietly_def)
  then have "run w (e1 @ e2) w2" "\<forall>ev \<in> set (e1 @ e2). quiet ev"
    by (auto intro: run_trans)
  then show ?thesis unfolding quietly_def by blast
qed

lemma quietly_deferred_update [simp]:
  "quietly (w\<lparr>deferred := d\<rparr>) w' = quietly w w'"
  "quietly w (w'\<lparr>deferred := d\<rparr>) = quietly w w'"
  by (simp_all add: quietly_def)

lemma call_quietly:
  "call drv c w = (r, w') \<Longrightarrow> quiet (Call (fst drv) c r) \<Longrightarrow> quietly w w'"
  unfolding quietly_def using call_run by fastforce

lemma call_err_quietly:
  assumes "call_err drv c w = (res, w')" and "\<And>r. quiet (Call (fst drv) c r)"
  shows "quietly w w' \<and> (res = Inr () \<or> (\<exists>msg. res = Inl (External msg)))"
proof -
  from call_err_run [OF assms(1)] obtain r
    where "run w [Call (fst drv) c r] w'"
      and "res = Inr () \<or> (\<exists>msg. res = Inl (External msg))"
    by blast
  moreover from this(1) assms(2) have "quietly w w'"
    unfolding quietly_def by fastforce
  ultimately show ?thesis by blast
qed

lemma sleep_quietly: "quietly w (sleep d w)"
  unfolding quietly_def using sleep_run [of w d] by fastforce

lemma defer_close_quietly: "quietly w (defer_close drv w)"
  unfolding quietly_def using defer_close_run [of w drv] by fastforce

lemma wait_retry_quietly:
  assumes "wait_retry db drv i successful err w = Some y"
  shows "quietly w (snd y)"
proof -
  have step: "quietly w (snd y)"
    if IH: "\<And>db drv i successful err w y.
              f db drv i successful err w = Some y \<Longrightarrow> quietly w (snd y)"
      and body: "(if i < WaitTimeout db
          then case call drv Ping (sleep (WaitInterval db) w) of
               (r, w1) \<Rightarrow> f db drv (wrap64 (i + WaitInterval db))
                              (successful \<or> err_of r = None) (err_of r) w1
          else Some ((successful, err), w)) = Some y"
    for f and db :: DB and drv :: "'a handle" and i successful err w y
  proof (cases "i < WaitTimeout db")
    case False
    with body show ?thesis by (auto simp: quietly_refl)
  next
    case True
    obtain r w1 where c: "call drv Ping (sleep (WaitInterval db) w) = (r, w1)"
      by (cases "call drv Ping (sleep (WaitInterval db) w)")
    with True body
    have "f db drv (wrap64 (i + WaitInterval db))
            (successful \<or> err_of r = None) (err_of r) w1 = Some y"
      by simp
    then have "quietly w1 (snd y)" by (rule IH)
    moreover have "quietly (sleep (WaitInterval db) w) w1"
      using c by (rule call_quietly) simp
    ultimately show ?thesis
      using sleep_quietly quietly_trans by blast
  qed
  show ?thesis
    by (rule wait_retry.raw_induct
          [where P = "\<lambda>db drv i successful err w y. quietly w (snd y)", OF _ assms])
       (rule step)
qed

lemma wait_one_quietly: "wait_one db drv w = Some y \<Longrightarrow> quietly w (snd y)"
proof -
  assume a: "wait_one db drv w = Some y"
  obtain r w1 where c: "call drv Ping w = (r, w1)" by (cases "call drv Ping w")
  then have q: "quietly w w1" by (rule call_quietly) simp
  show ?thesis
  proof (cases "err_of r = None")
    case True
    with a c q show ?thesis by (auto simp: wait_one_def)
  next
    case False
    with a c have "wait_retry db drv 0 False (err_of r) w1 = Some y"
      by (simp add: wait_one_def)
    from wait_retry_quietly [OF this] q show ?thesis by (rule quietly_trans [rotated])
  qed
qed

lemma wait_quietly:
  "wait db d w = Some (res, w') \<Longrightarrow>
   quietly w w' \<and> (res = Inr () \<or> (\<exists>msg. res = Inl (ErrCantConnect msg)))"
proof (induction d arbitrary: w)
  case Nil
  then show ?case by (simp add: quietly_refl)
next
  case (Cons drv d)
  from Cons.prems obtain successful err w1
    where one: "wait_one db drv w = Some ((successful, err), w1)"
    by (auto split: option.splits)
  from wait_one_quietly [OF one] have q: "quietly w w1" by simp
  show ?case
  proof (cases successful)
    case False
    with Cons.prems one q show ?thesis by (auto simp: cant_connect_def)
  next
    case True
    with Cons.prems one have "wait db d w1 = Some (res, w')" by simp
    from Cons.IH [OF this] q show ?thesis by (blast intro: quietly_trans)
  qed
qed

lemma after_Some:
  "after step rest = Some y \<Longrightarrow>
   (\<exists>e w. step = Some (Inl e, w) \<and> y = (Inl e, w)) \<or>
   (\<exists>x w. step = Some (Inr x, w) \<and> rest x w = Some y)"
  by (auto simp: after_def split: option.splits sum.splits prod.splits)

lemma wait_both_quietly:
  assumes "wait_both db drv slavesDrv w = Some (res, w')"
  shows "quietly w w' \<and> (res = Inr () \<or> (\<exists>msg. res = Inl (ErrCantConnect msg)))"
proof (cases "WaitBefore db")
  case False
  with assms show ?thesis by (simp add: wait_both_def quietly_refl)
next
  case True
  with assms have "after (wait db [drv] w) (\<lambda>u w1. wait db slavesDrv w1) = Some (res, w')"
    by (simp add: wait_both_def)
  from after_Some [OF this] show ?thesis
  proof (elim disjE exE conjE)
    fix e w1
    assume "wait db [drv] w = Some (Inl e, w1)" "(res, w') = (Inl e, w1)"
    with wait_quietly [of db "[drv]" w "Inl e" w1] show ?thesis by auto
  next
    fix x w1
    assume "wait db [drv] w = Some (Inr x, w1)" "wait db slavesDrv w1 = Some (res, w')"
    with wait_quietly [of db "[drv]" w "Inr x" w1] wait_quietly [of db slavesDrv w1 res w']
    show ?thesis by (blast intro: quietly_trans)
  qed
qed

lemma openDatabaseForMigration_quietly:
  assumes "openDatabaseForMigration drv w = (res, w')"
  shows "quietly w w' \<and> (res = Inr () \<or> (\<exists>msg. res = Inl (External msg)))"
proof -
  obtain r1 w1 where o: "call_err drv Open w = (r1, w1)" by (cases "call_err drv Open w")
  from call_err_quietly [OF o] have q1: "quietly w w1"
    and s1: "r1 = Inr () \<or> (\<exists>msg. r1 = Inl (External msg))"
    by simp_all
  show ?thesis
  proof (cases r1)
    case (Inl e)
    with assms o q1 s1 show ?thesis by (auto simp: openDatabaseForMigration_def)
  next
    case (Inr u)
    obtain r2 w2 where c: "call_err drv CreateMigrationsTable w1 = (r2, w2)"
      by (cases "call_err drv CreateMigrationsTable w1")
    from call_err_quietly [OF c] have q2: "quietly w1 w2"
      and s2: "r2 = Inr () \<or> (\<exists>msg. r2 = Inl (External msg))"
      by simp_all
    show ?thesis
    proof (cases r2)
      case (Inl e)
      obtain r3 w3 where cl: "call drv Close w2 = (r3, w3)" by (cases "call drv Close w2")
      then have "quietly w2 w3" by (rule call_quietly) simp
      with q1 q2 have "quietly w w3" by (blast intro: quietly_trans)
      with assms o \<open>r1 = Inr u\<close> c Inl s2 cl show ?thesis
        by (auto simp: openDatabaseForMigration_def)
    next
      case (Inr u2)
      with assms o \<open>r1 = Inr u\<close> c q1 q2 show ?thesis
        by (auto simp: openDatabaseForMigration_def intro: quietly_trans)
    qed
  qed
qed

lemma write_schema_quietly: "write_schema fs schema w = (res, w') \<Longrightarrow> quietly w w'"
  unfolding quietly_def run_def
  by (auto simp: write_schema_def Let_def split: option.splits)

lemma dump_after_wait_quietly:
  assumes "dump_after_wait fs drv w = (res, w')"
  shows "quietly w w'"
proof -
  obtain r1 w1 where o: "openDatabaseForMigration drv w = (r1, w1)"
    by (cases "openDatabaseForMigration drv w")
  from openDatabaseForMigration_quietly [OF o] have q1: "quietly w w1" by simp
  show ?thesis
  proof (cases r1)
    case (Inl e)
    with assms o q1 show ?thesis by (simp add: dump_after_wait_def)
  next
    case (Inr u)
    obtain r2 w2 where d: "call drv DumpSchema w1 = (r2, w2)" by (cases "call drv DumpSchema w1")
    then have q2: "quietly w1 w2" by (rule call_quietly) simp
    obtain r3 w3 where o3: "dump_opened fs drv w1 = (r3, w3)" by (cases "dump_opened fs drv w1")
    have q3: "quietly w2 w3"
      using o3 d write_schema_quietly [of fs "bytes_of r2" w2 r3 w3]
      by (auto simp: dump_opened_def quietly_refl split: option.splits)
    obtain r4 w4 where cl: "call drv Close w3 = (r4, w4)" by (cases "call drv Close w3")
    then have q4: "quietly w3 w4" by (rule call_quietly) simp
    from assms o Inr o3 cl have "w' = w4" by (simp add: dump_after_wait_def)
    with q1 q2 q3 q4 show ?thesis by (blast intro: quietly_trans)
  qed
qed

lemma dumpSchema_quietly:
  assumes "dumpSchema db fs drv w = Some (res, w')"
  shows "quietly w w'"
proof -
  from after_Some [OF assms [unfolded dumpSchema_def]] show ?thesis
  proof (elim disjE exE conjE)
    fix e w1
    assume "(if WaitBefore db then wait db [drv] w else Some (Inr (), w)) = Some (Inl e, w1)"
      and "(res, w') = (Inl e, w1)"
    then show ?thesis
      using wait_quietly [of db "[drv]" w "Inl e" w1] by (auto split: if_splits)
  next
    fix x w1
    assume "(if WaitBefore db then wait db [drv] w else Some (Inr (), w)) = Some (Inr x, w1)"
      and "Some (dump_after_wait fs drv w1) = Some (res, w')"
    then have "quietly w w1" "dump_after_wait fs drv w1 = (res, w')"
      using wait_quietly [of db "[drv]" w "Inr x" w1] by (auto split: if_splits simp: quietly_refl)
    with dump_after_wait_quietly show ?thesis by (blast intro: quietly_trans)
  qed
qed

lemma close_all_quietly: "quietly w (close_all drvs w)"
proof (induction drvs arbitrary: w)
  case Nil
  show ?case by (simp add: quietly_refl)
next
  case (Cons drv drvs)
  obtain r w1 where c: "call drv Close w = (r, w1)" by (cases "call drv Close w")
  then have "quietly w w1" by (rule call_quietly) simp
  with Cons [of w1] c show ?case by (auto intro: quietly_trans)
qed

lemma run_deferred_quietly: "quietly w (run_deferred w)"
  by (simp add: run_deferred_def close_all_quietly)

lemma dump_and_release_quietly:
  assumes "dump_and_release db fs drv (res, w) = Some (res', w')"
  shows "quietly w w' \<and> res' = res"
proof (cases res)
  case (Inl e)
  with assms show ?thesis by (auto simp: dump_and_release_def run_deferred_quietly)
next
  case (Inr u)
  show ?thesis
  proof (cases "AutoDumpSchema db")
    case False
    with assms Inr show ?thesis by (auto simp: dump_and_release_def run_deferred_quietly)
  next
    case True
    with assms Inr obtain r1 w1 where d: "dumpSchema db fs drv w = Some (r1, w1)"
      and "res' = Inr ()" "w' = run_deferred w1"
      by (auto simp: dump_and_release_def split: option.splits)
    with dumpSchema_quietly [OF d] run_deferred_quietly [of w1] Inr show ?thesis
      by (auto intro: quietly_trans)
  qed
qed

subsection \<open>Steps that write\<close>

lemma only_refl: "only P w w"
  unfolding only_def using run_refl [of w] by fastforce

lemma only_trans: "only P w w1 \<Longrightarrow> only P w1 w2 \<Longrightarrow> only P w w2"
proof -
  assume "only P w w1" and "only P w1 w2"
  then obtain e1 e2 where "run w e1 w1" "\<forall>ev \<in> set e1. P ev"
    and "run w1 e2 w2" "\<forall>ev \<in> set e2. P ev"
    by (auto simp: only_def)
  then have "run w (e1 @ e2) w2" "\<forall>ev \<in> set (e1 @ e2). P ev"
    by (auto intro: run_trans)
  then show ?thesis unfolding only_def by blast
qed

lemma only_mono: "only P w w' \<Longrightarrow> (\<And>ev. P ev \<Longrightarrow> Q ev) \<Longrightarrow> only Q w w'"
  unfolding only_def by blast


lemma only_deferred_update [simp]:
  "only P (w\<lparr>deferred := d\<rparr>) w' = only P w w'"
  "only P w (w'\<lparr>deferred := d\<rparr>) = only P w w'"
  by (simp_all add: only_def)


lemma call_err_only:
  assumes "call_err drv c w = (res, w')" and "\<And>r. P (Call (fst drv) c r)"
  shows "only P w w' \<and> (res = Inr () \<or> (\<exists>msg. res = Inl (External msg)))"
proof -
  from call_err_run [OF assms(1)] obtain r
    where "run w [Call (fst drv) c r] w'"
      and "res = Inr () \<or> (\<exists>msg. res = Inl (External msg))"
    by blast
  moreover from this(1) assms(2) have "only P w w'"
    unfolding only_def by fastforce
  ultimately show ?thesis by blast
qed

lemma block_event_simps [simp]:
  "block_event d (Call (fst d) (Exec b s) r)"
  "block_event d (Call (fst d) (InsertMigration b v) r)"
  "block_event d (Call (fst d) (DeleteMigration b v) r)"
  "block_event d (Call (fst d) Begin r)"
  "block_event d (Call (fst d) Commit r)"
  "block_event d (Call (fst d) TxRollback r)"
  by (simp_all add: block_event_def is_select_def)

lemma execMigration_only:
  assumes "execMigration d m record_call ver in_tx w = (res, w')"
    and "record_call = InsertMigration \<or> record_call = DeleteMigration"
  shows "only (block_event d) w w' \<and> (res = Inr () \<or> (\<exists>msg. res = Inl (External msg)))"
proof -
  obtain r1 w1 where e: "call_err d (Exec in_tx (Contents m)) w = (r1, w1)"
    by (cases "call_err d (Exec in_tx (Contents m)) w")
  from call_err_only [OF e, of "block_event d"]
  have o1: "only (block_event d) w w1" and s1: "r1 = Inr () \<or> (\<exists>msg. r1 = Inl (External msg))"
    by simp_all
  show ?thesis
  proof (cases r1)
    case (Inl x)
    with assms(1) e o1 s1 show ?thesis by (auto simp: execMigration_def)
  next
    case (Inr u)
    with assms(1) e have c: "call_err d (record_call in_tx ver) w1 = (res, w')"
      by (simp add: execMigration_def)
    from assms(2) have "\<And>r. block_event d (Call (fst d) (record_call in_tx ver) r)"
      by auto
    from call_err_only [OF c, of "block_event d", OF this]
    have "only (block_event d) w1 w'" and "res = Inr () \<or> (\<exists>msg. res = Inl (External msg))"
      by simp_all
    with o1 show ?thesis
      by (blast intro: only_trans)
  qed
qed

lemma doTransaction_only:
  assumes "doTransaction d txFunc w = (res, w')"
    and tx: "\<And>w1 r1 w2. txFunc w1 = (r1, w2) \<Longrightarrow>
           only (block_event d) w1 w2 \<and> (r1 = Inr () \<or> (\<exists>msg. r1 = Inl (External msg)))"
  shows "only (block_event d) w w' \<and> (res = Inr () \<or> (\<exists>msg. res = Inl (External msg)))"
proof -
  obtain r1 w1 where b: "call_err d Begin w = (r1, w1)" by (cases "call_err d Begin w")
  from call_err_only [OF b, of "block_event d"]
  have o1: "only (block_event d) w w1" and s1: "r1 = Inr () \<or> (\<exists>msg. r1 = Inl (External msg))"
    by simp_all
  show ?thesis
  proof (cases r1)
    case (Inl x)
    with assms(1) b o1 s1 show ?thesis by (auto simp: doTransaction_def)
  next
    case (Inr u)
    obtain r2 w2 where t: "txFunc w1 = (r2, w2)" by (cases "txFunc w1")
    from tx [OF t] have o2: "only (block_event d) w1 w2"
      and s2: "r2 = Inr () \<or> (\<exists>msg. r2 = Inl (External msg))"
      by simp_all
    show ?thesis
    proof (cases r2)
      case (Inr u2)
      with assms(1) b \<open>r1 = Inr u\<close> t have c: "call_err d Commit w2 = (res, w')"
        by (simp add: doTransaction_def)
      from call_err_only [OF c, of "block_event d"]
      have "only (block_event d) w2 w'" and "res = Inr () \<or> (\<exists>msg. res = Inl (External msg))"
        by simp_all
      with o1 o2 show ?thesis
        by (blast intro: only_trans)
    next
      case (Inl e)
      obtain r3 w3 where rb: "call_err d TxRollback w2 = (r3, w3)"
        by (cases "call_err d TxRollback w2")
      from call_err_only [OF rb, of "block_event d"]
      have o3: "only (block_event d) w2 w3"
        and s3: "r3 = Inr () \<or> (\<exists>msg. r3 = Inl (External msg))"
        by simp_all
      from o1 o2 o3 have "only (block_event d) w w3" by (blast intro: only_trans)
      moreover from s2 Inl obtain msg where msg: "e = External msg" by auto
      have "(res, w') = (case r3 of Inl e1 \<Rightarrow> (Inl e1, w3) | Inr u3 \<Rightarrow> (Inl e, w3))"
        using assms(1) b \<open>r1 = Inr u\<close> t Inl rb
        by (simp add: doTransaction_def split: sum.splits)
      with s3 msg have "w' = w3" "\<exists>msg. res = Inl (External msg)"
        by (cases r3; simp)+
      ultimately show ?thesis by simp
    qed
  qed
qed

lemma run_block_only:
  assumes "run_block d m record_call ver w = (res, w')"
    and "record_call = InsertMigration \<or> record_call = DeleteMigration"
  shows "only (block_event d) w w' \<and> (res = Inr () \<or> (\<exists>msg. res = Inl (External msg)))"
proof (cases "Transaction (Options m)")
  case True
  with assms(1) have "doTransaction d (execMigration d m record_call ver True) w = (res, w')"
    by (simp add: run_block_def)
  then show ?thesis
    by (rule doTransaction_only) (rule execMigration_only [OF _ assms(2)])
next
  case False
  with assms(1) have "execMigration d m record_call ver False w = (res, w')"
    by (simp add: run_block_def)
  then show ?thesis by (rule execMigration_only [OF _ assms(2)])
qed

lemma run_on_slaves_only:
  "run_on_slaves slavesDrv m record_call ver w = (res, w') \<Longrightarrow>
   record_call = InsertMigration \<or> record_call = DeleteMigration \<Longrightarrow>
   only (\<lambda>ev. calls_to slavesDrv ev \<and> \<not> is_select ev) w w' \<and>
   (res = Inr () \<or> (\<exists>msg. res = Inl (External msg)))"
proof (induction slavesDrv arbitrary: w)
  case Nil
  then show ?case by (simp add: only_refl)
next
  case (Cons d rest)
  let ?P = "\<lambda>ev. calls_to (d # rest) ev \<and> \<not> is_select ev"
  obtain r1 w1 where b: "run_block d m record_call ver w = (r1, w1)"
    by (cases "run_block d m record_call ver w")
  from run_block_only [OF b Cons.prems(2)]
  have o1: "only (block_event d) w w1" and s1: "r1 = Inr () \<or> (\<exists>msg. r1 = Inl (External msg))"
    by simp_all
  from o1 have o1': "only ?P w w1"
    by (rule only_mono) (auto simp: block_event_def calls_to_def split: event.splits)
  show ?case
  proof (cases r1)
    case (Inl e)
    with Cons.prems(1) b o1' s1 show ?thesis by auto
  next
    case (Inr u)
    with Cons.prems(1) b have "run_on_slaves rest m record_call ver w1 = (res, w')" by simp
    from Cons.IH [OF this Cons.prems(2)]
    have o2: "only (\<lambda>ev. calls_to rest ev \<and> \<not> is_select ev) w1 w'"
      and s2: "res = Inr () \<or> (\<exists>msg. res = Inl (External msg))"
      by simp_all
    from o2 have "only ?P w1 w'"
      by (rule only_mono) (auto simp: calls_to_def split: event.splits)
    with o1' s2 show ?thesis by (blast intro: only_trans)
  qed
qed

subsection \<open>The errors of the parser\<close>


subsection \<open>The files that Migrate parses\<close>

lemma quietly_run: "quietly w w' \<Longrightarrow> \<exists>evs. run w evs w' \<and> (\<forall>ev \<in> set evs. quiet ev)"
  by (simp add: quietly_def)

lemma only_run: "only P w w' \<Longrightarrow> \<exists>evs. run w evs w'"
  by (auto simp: only_def)

lemma parse_error_External [simp]: "\<not> parse_error (External msg)"
  by (simp add: parse_error_def)

lemma open_slaves_reads:
  "open_slaves slavesDrv w = (res, w') \<Longrightarrow>
   \<exists>evs. run w evs w' \<and>
     (\<forall>appliedSlaves. res = Inr appliedSlaves \<longrightarrow>
        length appliedSlaves = length slavesDrv \<and>
        (\<forall>idx < length slavesDrv. \<exists>t r.
           Call t (SelectMigrations (- 1)) r \<in> set evs \<and> appliedSlaves ! idx = versions_of r)) \<and>
     (\<forall>e. res = Inl e \<longrightarrow> (\<exists>msg. e = External msg))"
proof (induction slavesDrv arbitrary: w res w')
  case Nil
  then show ?case using run_refl [of w] by auto
next
  case (Cons d rest)
  obtain r1 w1 where o: "openDatabaseForMigration d w = (r1, w1)"
    by (cases "openDatabaseForMigration d w")
  from openDatabaseForMigration_quietly [OF o] obtain e1
    where e1: "run w e1 w1" and s1: "r1 = Inr () \<or> (\<exists>msg. r1 = Inl (External msg))"
    by (auto dest: quietly_run)
  show ?case
  proof (cases r1)
    case (Inl e)
    with Cons.prems o e1 s1 show ?thesis by auto
  next
    case (Inr u)
    obtain r2 w2 where s: "selectMigrations d (- 1) (defer_close d w1) = (r2, w2)"
      by (cases "selectMigrations d (- 1) (defer_close d w1)")
    from selectMigrations_run [OF s] obtain r
      where e2: "run (defer_close d w1) [Call (fst d) (SelectMigrations (- 1)) r] w2"
        and s2: "r2 = Inr (versions_of r) \<or> (\<exists>msg. r2 = Inl (External msg))"
      by blast
    from e1 e2 have e12: "run w (e1 @ [Call (fst d) (SelectMigrations (- 1)) r]) w2"
      by (simp add: run_def defer_close_def)
    show ?thesis
    proof (cases r2)
      case (Inl e)
      with Cons.prems o \<open>r1 = Inr u\<close> s s2 e12 show ?thesis by auto
    next
      case r2: (Inr applied)
      with s2 have applied: "applied = versions_of r" by simp
      obtain r3 w3 where rest: "open_slaves rest w2 = (r3, w3)"
        by (cases "open_slaves rest w2")
      from Cons.IH [OF rest] obtain e3 where e3: "run w2 e3 w3"
        and ok: "\<And>others. r3 = Inr others \<Longrightarrow> length others = length rest \<and>
            (\<forall>idx < length rest. \<exists>t r. Call t (SelectMigrations (- 1)) r \<in> set e3 \<and>
               others ! idx = versions_of r)"
        and bad: "\<And>e. r3 = Inl e \<Longrightarrow> \<exists>msg. e = External msg"
        by blast
      let ?evs = "(e1 @ [Call (fst d) (SelectMigrations (- 1)) r]) @ e3"
      have all: "run w ?evs w3" using e12 e3 by (rule run_trans)
      show ?thesis
      proof (cases r3)
        case (Inl e)
        with Cons.prems o \<open>r1 = Inr u\<close> s r2 rest have "res = Inl e" "w' = w3" by simp_all
        with all bad [OF Inl] show ?thesis by blast
      next
        case (Inr others)
        with Cons.prems o \<open>r1 = Inr u\<close> s r2 rest
        have res: "res = Inr (applied # others)" "w' = w3" by simp_all
        have "\<exists>t r'. Call t (SelectMigrations (- 1)) r' \<in> set ?evs \<and>
                (applied # others) ! idx = versions_of r'"
          if "idx < length (d # rest)" for idx
        proof (cases idx)
          case 0
          with applied show ?thesis by auto
        next
          case (Suc k)
          with that have "k < length rest" by simp
          with ok [OF Inr] obtain t r' where "Call t (SelectMigrations (- 1)) r' \<in> set e3"
            "others ! k = versions_of r'"
            by blast
          with Suc show ?thesis by auto
        qed
        with res all ok [OF Inr] show ?thesis by auto
      qed
    qed
  qed
qed

lemma migrate_files_skip:
  assumes "applied_has applied (migrationVersion filename)"
    and "\<forall>idx < length slavesDrv. applied_has (appliedSlaves ! idx) (migrationVersion filename)"
  shows "migrate_files fs drv slavesDrv applied appliedSlaves (filename # files) w =
         migrate_files fs drv slavesDrv applied appliedSlaves files w"
proof -
  have "filter (\<lambda>idx. \<not> applied_has (appliedSlaves ! idx) (migrationVersion filename))
          [0..<length slavesDrv] = []"
    using assms(2) by (simp add: filter_empty_conv)
  with assms(1) show ?thesis by (simp add: Let_def)
qed

lemma migrate_files_parse_error:
  "migrate_files fs drv slavesDrv applied appliedSlaves files w = (res, w') \<Longrightarrow>
   (\<exists>evs. run w evs w') \<and>
   (\<forall>e. res = Inl e \<and> parse_error e \<longrightarrow>
      (\<exists>f \<in> set files. parseMigration (ReadFile fs) f = Inl e \<and>
         (\<not> applied_has applied (migrationVersion f) \<or>
          (\<exists>idx < length slavesDrv. \<not> applied_has (appliedSlaves ! idx) (migrationVersion f)))))"
proof (induction files arbitrary: w)
  case Nil
  then show ?case using run_refl [of w] by auto
next
  case (Cons f files)
  let ?ver = "migrationVersion f"
  let ?pending = "\<not> applied_has applied ?ver \<or>
     (\<exists>idx < length slavesDrv. \<not> applied_has (appliedSlaves ! idx) ?ver)"
  show ?case
  proof (cases ?pending)
    case False
    then have "migrate_files fs drv slavesDrv applied appliedSlaves (f # files) w =
        migrate_files fs drv slavesDrv applied appliedSlaves files w"
      by (intro migrate_files_skip) auto
    with Cons.prems have "migrate_files fs drv slavesDrv applied appliedSlaves files w = (res, w')"
      by simp
    from Cons.IH [OF this] show ?thesis by auto
  next
    case True
    then have go: "(applied_has applied ?ver \<and>
        filter (\<lambda>idx. \<not> applied_has (appliedSlaves ! idx) ?ver) [0..<length slavesDrv] = []) = False"
      by (auto simp: filter_empty_conv)
    show ?thesis
    proof (cases "parseMigration (ReadFile fs) f")
      case (Inl e)
      with Cons.prems have "res = Inl e" "w' = w" by (simp_all add: Let_def go)
      with Inl True show ?thesis using run_refl [of w] by auto
    next
      case (Inr ms)
      obtain up down upSlave downSlave where ms: "ms = (up, down, upSlave, downSlave)"
        by (cases ms)
      obtain r1 w1 where sl: "run_on_slaves slavesDrv upSlave InsertMigration ?ver w = (r1, w1)"
        by (cases "run_on_slaves slavesDrv upSlave InsertMigration ?ver w")
      from run_on_slaves_only [OF sl] obtain e1 where e1: "run w e1 w1"
        and s1: "r1 = Inr () \<or> (\<exists>msg. r1 = Inl (External msg))"
        by (auto dest: only_run)
      show ?thesis
      proof (cases r1)
        case (Inl e)
        with Cons.prems Inr ms sl have "res = Inl e" "w' = w1" by (simp_all add: Let_def go)
        with e1 s1 Inl show ?thesis by auto
      next
        case r1: (Inr u)
        obtain r2 w2 where m: "(if \<not> applied_has applied ?ver
              then run_block drv up InsertMigration ?ver w1 else (Inr (), w1)) = (r2, w2)"
          by (cases "if \<not> applied_has applied ?ver
              then run_block drv up InsertMigration ?ver w1 else (Inr (), w1)")
        have "\<exists>e2. run w1 e2 w2" and s2: "r2 = Inr () \<or> (\<exists>msg. r2 = Inl (External msg))"
          using m run_block_only [of drv up InsertMigration ?ver w1 r2 w2] run_refl [of w1]
          by (auto split: if_splits dest: only_run)
        then obtain e2 where e2: "run w1 e2 w2" by blast
        show ?thesis
        proof (cases r2)
          case (Inl e)
          with Cons.prems Inr ms sl r1 m have "res = Inl e" "w' = w2" by (simp_all add: Let_def go)
          with run_trans [OF e1 e2] s2 Inl show ?thesis by auto
        next
          case r2: (Inr u2)
          with Cons.prems Inr ms sl r1 m
          have "migrate_files fs drv slavesDrv applied appliedSlaves files w2 = (res, w')"
            by (simp add: Let_def go)
          from Cons.IH [OF this] obtain e3 where e3: "run w2 e3 w'"
            and rest: "\<forall>e. res = Inl e \<and> parse_error e \<longrightarrow>
              (\<exists>f \<in> set files. parseMigration (ReadFile fs) f = Inl e \<and>
                 (\<not> applied_has applied (migrationVersion f) \<or>
                  (\<exists>idx < length slavesDrv.
                     \<not> applied_has (appliedSlaves ! idx) (migrationVersion f))))"
            by blast
          from run_trans [OF run_trans [OF e1 e2] e3] rest show ?thesis by auto
        qed
      qed
    qed
  qed
qed

lemma migrate_opened_parse_error:
  assumes "migrate_opened fs drv slavesDrv files w = (Inl e, w')" and "parse_error e"
  shows "\<exists>evs f t r. run w evs w' \<and> f \<in> set files \<and>
           parseMigration (ReadFile fs) f = Inl e \<and>
           Call t (SelectMigrations (- 1)) r \<in> set evs \<and>
           \<not> applied_has (versions_of r) (migrationVersion f)"
proof -
  obtain r1 w1 where o: "openDatabaseForMigration drv w = (r1, w1)"
    by (cases "openDatabaseForMigration drv w")
  from openDatabaseForMigration_quietly [OF o] obtain e1
    where e1: "run w e1 w1" and s1: "r1 = Inr () \<or> (\<exists>msg. r1 = Inl (External msg))"
    by (auto dest: quietly_run)
  from assms o s1 have r1: "r1 = Inr ()"
    by (auto simp: migrate_opened_def)
  obtain r2 w2 where s: "selectMigrations drv (- 1) (defer_close drv w1) = (r2, w2)"
    by (cases "selectMigrations drv (- 1) (defer_close drv w1)")
  from selectMigrations_run [OF s] obtain rp
    where e2: "run (defer_close drv w1) [Call (fst drv) (SelectMigrations (- 1)) rp] w2"
      and s2: "r2 = Inr (versions_of rp) \<or> (\<exists>msg. r2 = Inl (External msg))"
    by blast
  from assms o r1 s s2 have r2: "r2 = Inr (versions_of rp)"
    by (auto simp: migrate_opened_def)
  from e1 e2 have e12: "run w (e1 @ [Call (fst drv) (SelectMigrations (- 1)) rp]) w2"
    by (simp add: run_def defer_close_def)
  obtain r3 w3 where os: "open_slaves slavesDrv w2 = (r3, w3)"
    by (cases "open_slaves slavesDrv w2")
  from open_slaves_reads [OF os] obtain e3 where e3: "run w2 e3 w3"
    and ok: "\<And>appliedSlaves. r3 = Inr appliedSlaves \<Longrightarrow>
        length appliedSlaves = length slavesDrv \<and>
        (\<forall>idx < length slavesDrv. \<exists>t r.
           Call t (SelectMigrations (- 1)) r \<in> set e3 \<and> appliedSlaves ! idx = versions_of r)"
    and bad: "\<And>e. r3 = Inl e \<Longrightarrow> \<exists>msg. e = External msg"
    by blast
  from assms o r1 s r2 os bad obtain appliedSlaves where r3: "r3 = Inr appliedSlaves"
    by (cases r3) (auto simp: migrate_opened_def)
  with assms(1) o r1 s r2 os
  have mf: "migrate_files fs drv slavesDrv (versions_of rp) appliedSlaves files w3 = (Inl e, w')"
    by (simp add: migrate_opened_def)
  from migrate_files_parse_error [OF mf] assms(2) obtain e4 f
    where e4: "run w3 e4 w'" and f: "f \<in> set files" "parseMigration (ReadFile fs) f = Inl e"
      and pending: "\<not> applied_has (versions_of rp) (migrationVersion f) \<or>
         (\<exists>idx < length slavesDrv. \<not> applied_has (appliedSlaves ! idx) (migrationVersion f))"
    by blast
  let ?evs = "((e1 @ [Call (fst drv) (SelectMigrations (- 1)) rp]) @ e3) @ e4"
  have all: "run w ?evs w'"
    using run_trans [OF run_trans [OF e12 e3] e4] .
  from pending have "\<exists>t r. Call t (SelectMigrations (- 1)) r \<in> set ?evs \<and>
      \<not> applied_has (versions_of r) (migrationVersion f)"
  proof
    assume "\<not> applied_has (versions_of rp) (migrationVersion f)"
    then show ?thesis by auto
  next
    assume "\<exists>idx < length slavesDrv. \<not> applied_has (appliedSlaves ! idx) (migrationVersion f)"
    then obtain idx where "idx < length slavesDrv"
      "\<not> applied_has (appliedSlaves ! idx) (migrationVersion f)"
      by blast
    with ok [OF r3] obtain t r where "Call t (SelectMigrations (- 1)) r \<in> set e3"
      "appliedSlaves ! idx = versions_of r"
      by blast
    with \<open>\<not> applied_has (appliedSlaves ! idx) (migrationVersion f)\<close> show ?thesis by auto
  qed
  with all f show ?thesis by blast
qed

lemma migrate_parse_error:
  assumes "migrate db fs drv slavesDrv w = Some (Inl e, w')" and "parse_error e"
  shows "\<exists>files f t r. findMigrationFiles (ReadDir fs) migrationFileRegexp = Inr files \<and>
           f \<in> set files \<and> parseMigration (ReadFile fs) f = Inl e \<and>
           Call t (SelectMigrations (- 1)) r \<in> set (since w w') \<and>
           \<not> applied_has (versions_of r) (migrationVersion f)"
proof (cases "findMigrationFiles (ReadDir fs) migrationFileRegexp")
  case (Inl e')
  then have "e' = ErrMigrationDirNotFound"
    by (auto simp: findMigrationFiles_def split: option.splits)
  with Inl assms show ?thesis by (auto simp: migrate_def parse_error_def)
next
  case (Inr files)
  show ?thesis
  proof (cases "length files = 0")
    case True
    with Inr assms show ?thesis by (auto simp: migrate_def parse_error_def)
  next
    case False
    with Inr assms(1)
    have "after (wait_both db drv slavesDrv w)
            (\<lambda>u w1. dump_and_release db fs drv
               (migrate_opened fs drv slavesDrv files (w1\<lparr>deferred := []\<rparr>))) = Some (Inl e, w')"
      by (simp add: migrate_def)
    from after_Some [OF this] show ?thesis
    proof (elim disjE exE conjE)
      fix e' w1
      assume "wait_both db drv slavesDrv w = Some (Inl e', w1)" "(Inl e, w') = (Inl e', w1)"
      with wait_both_quietly [of db drv slavesDrv w "Inl e'" w1] assms(2) show ?thesis
        by (auto simp: parse_error_def)
    next
      fix x w1
      assume wb: "wait_both db drv slavesDrv w = Some (Inr x, w1)"
        and dr: "dump_and_release db fs drv
                   (migrate_opened fs drv slavesDrv files (w1\<lparr>deferred := []\<rparr>)) = Some (Inl e, w')"
      obtain r2 w2 where mo: "migrate_opened fs drv slavesDrv files (w1\<lparr>deferred := []\<rparr>) = (r2, w2)"
        by (cases "migrate_opened fs drv slavesDrv files (w1\<lparr>deferred := []\<rparr>)")
      from dump_and_release_quietly [OF dr [unfolded mo]]
      have q3: "quietly w2 w'" and r2: "r2 = Inl e" by simp_all
      from migrate_opened_parse_error [OF mo [unfolded r2] assms(2)] obtain evs f t r
        where e2: "run w1 evs w2" and f: "f \<in> set files" "parseMigration (ReadFile fs) f = Inl e"
          and ev: "Call t (SelectMigrations (- 1)) r \<in> set evs"
            "\<not> applied_has (versions_of r) (migrationVersion f)"
        by auto
      from wait_both_quietly [OF wb] obtain q1 where q1: "run w q1 w1"
        by (auto dest: quietly_run)
      from q3 obtain q3' where q3': "run w2 q3' w'" by (auto dest: quietly_run)
      from run_since [OF run_trans [OF run_trans [OF q1 e2] q3']] ev(1)
      have "Call t (SelectMigrations (- 1)) r \<in> set (since w w')" by simp
      with Inr f ev(2) show ?thesis by blast
    qed
  qed
qed

text \<open>
  C9. In the loop over the files, a file whose version the primary and every replica have
  applied is passed over before \<open>parseMigration\<close> is called, whatever the file holds.
  Consequently, when \<open>Migrate\<close> returns an error of the parser, the error is that of a file
  of the directory whose version is missing from a ledger that this run has read: a file
  applied everywhere never makes \<open>Migrate\<close> return an error of the parser.
\<close>

theorem applied_file_is_skipped_unparsed:
  "(applied_has applied (migrationVersion filename) \<and>
    (\<forall>idx < length slavesDrv. applied_has (appliedSlaves ! idx) (migrationVersion filename)) \<longrightarrow>
    migrate_files fs drv slavesDrv applied appliedSlaves (filename # files) w =
    migrate_files fs drv slavesDrv applied appliedSlaves files w) \<and>
   (Migrate drivers db fs w = Some (Inl e, w') \<and> parse_error e \<longrightarrow>
    (\<exists>names f t r. findMigrationFiles (ReadDir fs) migrationFileRegexp = Inr names \<and>
       f \<in> set names \<and> parseMigration (ReadFile fs) f = Inl e \<and>
       Call t (SelectMigrations (- 1)) r \<in> set (since w w') \<and>
       \<not> applied_has (versions_of r) (migrationVersion f)))"
proof (intro conjI impI)
  assume "applied_has applied (migrationVersion filename) \<and>
    (\<forall>idx < length slavesDrv. applied_has (appliedSlaves ! idx) (migrationVersion filename))"
  then show "migrate_files fs drv slavesDrv applied appliedSlaves (filename # files) w =
    migrate_files fs drv slavesDrv applied appliedSlaves files w"
    by (intro migrate_files_skip) simp_all
next
  assume a: "Migrate drivers db fs w = Some (Inl e, w') \<and> parse_error e"
  show "\<exists>names f t r. findMigrationFiles (ReadDir fs) migrationFileRegexp = Inr names \<and>
       f \<in> set names \<and> parseMigration (ReadFile fs) f = Inl e \<and>
       Call t (SelectMigrations (- 1)) r \<in> set (since w w') \<and>
       \<not> applied_has (versions_of r) (migrationVersion f)"
  proof (cases "GetDriver drivers db")
    case (Inl e')
    with a show ?thesis
      by (auto simp: Migrate_def GetDriver_def parse_error_def split: option.splits if_splits)
  next
    case (Inr drv)
    show ?thesis
    proof (cases "GetSlaveDrivers drivers db")
      case (Inl e')
      have "\<exists>s. e' = ErrUnsupportedDriver s"
        if "slave_drivers drivers db idx urls = Inl e'" for idx urls
        using that by (induction urls arbitrary: idx) (auto split: option.splits sum.splits)
      with Inl have "\<exists>s. e' = ErrUnsupportedDriver s" by (auto simp: GetSlaveDrivers_def)
      with a Inr Inl show ?thesis by (auto simp: Migrate_def parse_error_def)
    next
      case slaves: (Inr slavesDrv')
      with a Inr have "migrate db fs drv slavesDrv' w = Some (Inl e, w')" "parse_error e"
        by (simp_all add: Migrate_def)
      then show ?thesis by (rule migrate_parse_error)
    qed
  qed
qed

theorem applied_file_is_skipped_unparsed_witness:
  "contents_of (parseMigration (ReadFile (files_in [(''1_a.sql'', ''drop everything'')])) ''1_a.sql'') =
     Inl ErrParseMissingUp \<and>
   fst (migrate_files (files_in [(''1_a.sql'', ''drop everything'')]) primary_handle
          [replica_handle] [(''1'', True)] [[(''1'', True)]] [''1_a.sql''] (start [] 0)) =
     Inr ()"
proof -
  have "applied_has [(''1'', True)] (migrationVersion ''1_a.sql'') \<and>
    (\<forall>idx < length [replica_handle].
       applied_has ([[(''1'', True)]] ! idx) (migrationVersion ''1_a.sql''))"
    by (simp add: applied_has_def migrationVersion_takeWhile is_digit_def)
  with applied_file_is_skipped_unparsed
    [of "[(''1'', True)]" "''1_a.sql''" "[replica_handle]" "[[(''1'', True)]]"
        "files_in [(''1_a.sql'', ''drop everything'')]" "primary_handle" "[]" "start [] 0"]
  have "migrate_files (files_in [(''1_a.sql'', ''drop everything'')]) primary_handle
          [replica_handle] [(''1'', True)] [[(''1'', True)]] [''1_a.sql''] (start [] 0) =
        (Inr (), start [] 0)"
    by simp
  moreover have "contents_of (parseMigration
      (ReadFile (files_in [(''1_a.sql'', ''drop everything'')])) ''1_a.sql'') = Inl ErrParseMissingUp"
    by code_simp
  ultimately show ?thesis by simp
qed

section \<open>Properties of the rollback\<close>

subsection \<open>The events of the parts of a rollback\<close>





lemma findMigrationFile_error:
  "findMigrationFile dir ver = Inl e \<Longrightarrow> e \<noteq> ErrNoRollbackSlaves"
  by (auto simp: findMigrationFile_def findMigrationFiles_def split: if_splits option.splits)






subsection \<open>Replicas out of sync\<close>




end
